theory Spec2Isabelle
  imports Main "HOL-Library.Word"
begin

unbundle bit_operations_syntax

section \<open>PicoOSC: an OSC codec for fixed-capacity buffers\<close>

text \<open>
  A shallow embedding of \<^verbatim>\<open>PicoOSC.hpp\<close>.

  \<^item> The C type \<^verbatim>\<open>char\<close> is \<^typ>\<open>char\<close>, a byte.  A C string argument
    (\<^verbatim>\<open>const char*\<close>) is the list of the characters before its terminator, so
    \<^verbatim>\<open>strlen\<close> is \<^const>\<open>length\<close>, \<^verbatim>\<open>*p == 0\<close> is \<open>p = []\<close> and \<^verbatim>\<open>p++\<close> is \<open>tl p\<close>.
  \<^item> \<^verbatim>\<open>int32_t\<close> and \<^verbatim>\<open>uint32_t\<close> are \<^typ>\<open>32 word\<close> (read with \<^const>\<open>sint\<close> where the sign
    matters), \<^verbatim>\<open>int64_t\<close> is \<^typ>\<open>64 word\<close>, \<^verbatim>\<open>uint8_t\<close> is \<^typ>\<open>8 word\<close>.  A \<^verbatim>\<open>float\<close> or
    \<^verbatim>\<open>double\<close> is its bit pattern: the code only copies and byte-swaps it.
  \<^item> A fixed array is a list, an index or a size a natural number.  An access outside
    an array is undefined behaviour in C++; in the model every function that touches
    memory returns an option, and \<^const>\<open>None\<close> says that such an access happened.
  \<^item> \<^verbatim>\<open>size_t\<close> has 32 bits on the target (RP2040).  Arrays and buffers are C++
    objects, so they are shorter than \<open>2 ^ 31\<close> bytes and sums of positions inside them do not
    wrap; where an \<^verbatim>\<open>int32_t\<close> taken from the caller or from the wire is converted to
    \<^verbatim>\<open>size_t\<close>, the wrap-around is written out with \<open>sz\<close>.
  \<^item> The target is little-endian (the source says so), hence \<^verbatim>\<open>memcpy\<close> of an integer
    object stores its least significant byte first.
\<close>

subsection \<open>Configuration constants\<close>

abbreviation MAX_MESSAGE_SIZE :: nat where "MAX_MESSAGE_SIZE \<equiv> 1024"
abbreviation MAX_ADDRESS_SIZE :: nat where "MAX_ADDRESS_SIZE \<equiv> 256"
abbreviation MAX_TYPE_TAG_SIZE :: nat where "MAX_TYPE_TAG_SIZE \<equiv> 64"
abbreviation MAX_ARG_BUFFER_SIZE :: nat where "MAX_ARG_BUFFER_SIZE \<equiv> 768"
abbreviation MAX_BUNDLE_SIZE :: nat where "MAX_BUNDLE_SIZE \<equiv> 4096"
abbreviation MAX_ARGS :: nat where "MAX_ARGS \<equiv> 64"

abbreviation NUL :: char where "NUL \<equiv> CHR 0x00"

subsection \<open>Wire primitives\<close>

record OSCTimetag =
  seconds :: "32 word"
  fractions :: "32 word"

definition immediate :: OSCTimetag where
  "immediate = \<lparr>seconds = 1, fractions = 0\<rparr>"

text \<open>\<^verbatim>\<open>swap_endian<T>\<close> at the two widths the codec uses.\<close>

definition swap_endian32 :: "32 word \<Rightarrow> 32 word" where
  "swap_endian32 v =
     push_bit 24 (v AND 0x000000FF) OR
     push_bit 8 (v AND 0x0000FF00) OR
     drop_bit 8 (v AND 0x00FF0000) OR
     drop_bit 24 (v AND 0xFF000000)"

definition swap_endian64 :: "64 word \<Rightarrow> 64 word" where
  "swap_endian64 v =
     push_bit 56 (v AND 0x00000000000000FF) OR
     push_bit 40 (v AND 0x000000000000FF00) OR
     push_bit 24 (v AND 0x0000000000FF0000) OR
     push_bit 8 (v AND 0x00000000FF000000) OR
     drop_bit 8 (v AND 0x000000FF00000000) OR
     drop_bit 24 (v AND 0x0000FF0000000000) OR
     drop_bit 40 (v AND 0x00FF000000000000) OR
     drop_bit 56 (v AND 0xFF00000000000000)"

text \<open>
  A byte of an integer object and back: \<^verbatim>\<open>static_cast<char>\<close> of an unsigned value keeps
  the low eight bits, \<^verbatim>\<open>static_cast<uint8_t>\<close> of a \<^verbatim>\<open>char\<close> keeps all of them.
\<close>

definition byte_of :: "'a::len word \<Rightarrow> char" where
  "byte_of w = char_of (unat w)"

definition word_of_byte :: "char \<Rightarrow> 'a::len word" where
  "word_of_byte c = word_of_nat (of_char c)"

text \<open>\<^verbatim>\<open>memcpy\<close> of a 4-byte or 8-byte integer object to bytes and from bytes.\<close>

definition le_bytes32 :: "32 word \<Rightarrow> char list" where
  "le_bytes32 w = [byte_of w, byte_of (drop_bit 8 w), byte_of (drop_bit 16 w), byte_of (drop_bit 24 w)]"

definition le_bytes64 :: "64 word \<Rightarrow> char list" where
  "le_bytes64 w =
     [byte_of w, byte_of (drop_bit 8 w), byte_of (drop_bit 16 w), byte_of (drop_bit 24 w),
      byte_of (drop_bit 32 w), byte_of (drop_bit 40 w), byte_of (drop_bit 48 w),
      byte_of (drop_bit 56 w)]"

definition le_word32 :: "char list \<Rightarrow> 32 word" where
  "le_word32 bs = horner_sum word_of_byte 256 (take 4 bs)"

definition le_word64 :: "char list \<Rightarrow> 64 word" where
  "le_word64 bs = horner_sum word_of_byte 256 (take 8 bs)"

text \<open>\<^verbatim>\<open>size_t\<close> arithmetic, and \<^verbatim>\<open>(n + 3) & ~3\<close>, which clears the two low bits.\<close>

definition sz :: "nat \<Rightarrow> nat" where
  "sz n = n mod 2 ^ 32"

definition align4 :: "nat \<Rightarrow> nat" where
  "align4 n = sz (n + 3) div 4 * 4"

subsection \<open>Checked memory access\<close>

text \<open>
  \<open>memcpy dst off src n\<close> is \<^verbatim>\<open>memcpy(dst + off, src, n)\<close>; \<open>poke a i c\<close> is \<^verbatim>\<open>a[i] = c\<close>.
\<close>

definition memcpy :: "char list \<Rightarrow> nat \<Rightarrow> char list \<Rightarrow> nat \<Rightarrow> char list option" where
  "memcpy dst off src n =
     (if off + n \<le> length dst \<and> n \<le> length src
      then Some (take off dst @ take n src @ drop (off + n) dst) else None)"

definition poke :: "char list \<Rightarrow> nat \<Rightarrow> char \<Rightarrow> char list option" where
  "poke a i c = (if i < length a then Some (a[i := c]) else None)"

text \<open>
  Reading a buffer the caller declared to hold \<open>size'\<close> bytes: \<open>peek\<close> is \<^verbatim>\<open>buffer[i]\<close>,
  \<open>peeks\<close> the \<open>n\<close> bytes from \<open>i\<close> on.
\<close>

definition peek :: "char list \<Rightarrow> nat \<Rightarrow> nat \<Rightarrow> char option" where
  "peek buffer size' i = (if i < size' \<and> i < length buffer then Some (buffer ! i) else None)"

definition peeks :: "char list \<Rightarrow> nat \<Rightarrow> nat \<Rightarrow> nat \<Rightarrow> char list option" where
  "peeks buffer size' i n =
     (if i + n \<le> size' \<and> i + n \<le> length buffer then Some (take n (drop i buffer)) else None)"

subsection \<open>Message builder\<close>

record OSCMessage =
  mAddress :: "char list"
  mAddressSize :: nat
  mTypeTags :: "char list"
  mTypeTagCount :: nat
  mArgBuffer :: "char list"
  mArgBufferSize :: nat

text \<open>\<^verbatim>\<open>OSCMessage::clear\<close>; the constructor calls it.\<close>

definition msg_clear :: OSCMessage where
  "msg_clear =
     \<lparr>mAddress = replicate MAX_ADDRESS_SIZE NUL, mAddressSize = 0,
      mTypeTags = replicate MAX_TYPE_TAG_SIZE NUL, mTypeTagCount = 0,
      mArgBuffer = replicate MAX_ARG_BUFFER_SIZE NUL, mArgBufferSize = 0\<rparr>"

text \<open>The loop \<^verbatim>\<open>while (n % 4 != 0) a[n++] = '\0';\<close> of the builder.\<close>

function pad_loop :: "char list \<Rightarrow> nat \<Rightarrow> (char list \<times> nat) option" where
  "pad_loop a n =
     (if n mod 4 \<noteq> 0
      then (case poke a n NUL of None \<Rightarrow> None | Some a' \<Rightarrow> pad_loop a' (Suc n))
      else Some (a, n))"
  by pat_completeness auto
termination
  by (relation "measure (\<lambda>(a, n). (4 - n mod 4) mod 4)") (auto simp: mod_Suc)

declare pad_loop.simps [simp del]

definition setAddress :: "string \<Rightarrow> OSCMessage \<Rightarrow> (bool \<times> OSCMessage) option" where
  "setAddress address m =
     (let len = length address in
      if len \<ge> MAX_ADDRESS_SIZE then Some (False, m)
      else case memcpy (mAddress m) 0 (address @ [NUL]) (len + 1) of
             None \<Rightarrow> None
           | Some a \<Rightarrow>
               (case pad_loop a (len + 1) of
                  None \<Rightarrow> None
                | Some (a', n) \<Rightarrow> Some (True, m\<lparr>mAddress := a', mAddressSize := n\<rparr>)))"

definition canAddArg :: "OSCMessage \<Rightarrow> nat \<Rightarrow> bool" where
  "canAddArg m bytes =
     (mTypeTagCount m < MAX_TYPE_TAG_SIZE - 1 \<and>
      sz (mArgBufferSize m + bytes) \<le> MAX_ARG_BUFFER_SIZE)"

text \<open>
  The three statements every append operation is made of:
  \<^verbatim>\<open>mTypeTags[mTypeTagCount++] = c\<close>, \<^verbatim>\<open>memcpy(mArgBuffer + mArgBufferSize, src, n); mArgBufferSize += n\<close>
  and \<^verbatim>\<open>mArgBuffer[mArgBufferSize++] = c\<close>.
\<close>

definition put_tag :: "char \<Rightarrow> OSCMessage \<Rightarrow> OSCMessage option" where
  "put_tag c m =
     map_option (\<lambda>t. m\<lparr>mTypeTags := t, mTypeTagCount := mTypeTagCount m + 1\<rparr>)
       (poke (mTypeTags m) (mTypeTagCount m) c)"

definition put_bytes :: "char list \<Rightarrow> nat \<Rightarrow> OSCMessage \<Rightarrow> OSCMessage option" where
  "put_bytes src n m =
     map_option (\<lambda>b. m\<lparr>mArgBuffer := b, mArgBufferSize := sz (mArgBufferSize m + n)\<rparr>)
       (memcpy (mArgBuffer m) (mArgBufferSize m) src n)"

definition put_byte :: "char \<Rightarrow> OSCMessage \<Rightarrow> OSCMessage option" where
  "put_byte c m =
     map_option (\<lambda>b. m\<lparr>mArgBuffer := b, mArgBufferSize := mArgBufferSize m + 1\<rparr>)
       (poke (mArgBuffer m) (mArgBufferSize m) c)"

definition pad_args :: "OSCMessage \<Rightarrow> OSCMessage option" where
  "pad_args m =
     map_option (\<lambda>(b, n). m\<lparr>mArgBuffer := b, mArgBufferSize := n\<rparr>)
       (pad_loop (mArgBuffer m) (mArgBufferSize m))"

text \<open>An append operation that has passed its capacity check: it returns \<^verbatim>\<open>true\<close>.\<close>

definition appended :: "OSCMessage option \<Rightarrow> (bool \<times> OSCMessage) option" where
  "appended r = map_option (Pair True) r"

definition addInt :: "32 word \<Rightarrow> OSCMessage \<Rightarrow> (bool \<times> OSCMessage) option" where
  "addInt v m =
     (if \<not> canAddArg m 4 then Some (False, m)
      else appended (Option.bind (put_tag CHR ''i'' m) (put_bytes (le_bytes32 (swap_endian32 v)) 4)))"

definition addFloat :: "32 word \<Rightarrow> OSCMessage \<Rightarrow> (bool \<times> OSCMessage) option" where
  "addFloat v m =
     (if \<not> canAddArg m 4 then Some (False, m)
      else appended (Option.bind (put_tag CHR ''f'' m) (put_bytes (le_bytes32 (swap_endian32 v)) 4)))"

definition addString :: "string \<Rightarrow> OSCMessage \<Rightarrow> (bool \<times> OSCMessage) option" where
  "addString v m =
     (let len = length v; paddedLen = align4 (len + 1) in
      if \<not> canAddArg m paddedLen then Some (False, m)
      else appended (Option.bind (Option.bind (put_tag CHR ''s'' m)
             (put_bytes (v @ [NUL]) (len + 1))) pad_args))"

text \<open>
  \<^verbatim>\<open>addBlob(data, size)\<close>: \<open>data\<close> is the memory the caller's pointer refers to, \<open>size'\<close> the
  \<^verbatim>\<open>int32_t\<close>; \<^verbatim>\<open>static_cast<std::size_t>(size)\<close> is \<^term>\<open>unat size'\<close>.
\<close>

definition addBlob :: "char list \<Rightarrow> 32 word \<Rightarrow> OSCMessage \<Rightarrow> (bool \<times> OSCMessage) option" where
  "addBlob data size' m =
     (let paddedDataLen = align4 (unat size') in
      if \<not> canAddArg m (sz (4 + paddedDataLen)) then Some (False, m)
      else appended (Option.bind (Option.bind (Option.bind (put_tag CHR ''b'' m)
             (put_bytes (le_bytes32 (swap_endian32 size')) 4))
             (put_bytes data (unat size'))) pad_args))"

definition addInt64 :: "64 word \<Rightarrow> OSCMessage \<Rightarrow> (bool \<times> OSCMessage) option" where
  "addInt64 v m =
     (if \<not> canAddArg m 8 then Some (False, m)
      else appended (Option.bind (put_tag CHR ''h'' m) (put_bytes (le_bytes64 (swap_endian64 v)) 8)))"

definition addDouble :: "64 word \<Rightarrow> OSCMessage \<Rightarrow> (bool \<times> OSCMessage) option" where
  "addDouble v m =
     (if \<not> canAddArg m 8 then Some (False, m)
      else appended (Option.bind (put_tag CHR ''d'' m) (put_bytes (le_bytes64 (swap_endian64 v)) 8)))"

text \<open>
  \<^verbatim>\<open>addTimetag\<close> copies the two swapped fields to offsets 0 and 4 and then adds 8 to the size.
\<close>

definition addTimetag :: "OSCTimetag \<Rightarrow> OSCMessage \<Rightarrow> (bool \<times> OSCMessage) option" where
  "addTimetag tt m =
     (if \<not> canAddArg m 8 then Some (False, m)
      else appended (Option.bind (put_tag CHR ''t'' m)
             (put_bytes (le_bytes32 (swap_endian32 (seconds tt)) @
                         le_bytes32 (swap_endian32 (fractions tt))) 8)))"

definition add_tag_only :: "char \<Rightarrow> OSCMessage \<Rightarrow> (bool \<times> OSCMessage) option" where
  "add_tag_only c m =
     (if mTypeTagCount m \<ge> MAX_TYPE_TAG_SIZE - 1 then Some (False, m)
      else appended (put_tag c m))"

definition addTrue :: "OSCMessage \<Rightarrow> (bool \<times> OSCMessage) option" where
  "addTrue = add_tag_only CHR ''T''"

definition addFalse :: "OSCMessage \<Rightarrow> (bool \<times> OSCMessage) option" where
  "addFalse = add_tag_only CHR ''F''"

definition addNil :: "OSCMessage \<Rightarrow> (bool \<times> OSCMessage) option" where
  "addNil = add_tag_only CHR ''N''"

definition addInfinitum :: "OSCMessage \<Rightarrow> (bool \<times> OSCMessage) option" where
  "addInfinitum = add_tag_only CHR ''I''"

definition add_four :: "char \<Rightarrow> char \<Rightarrow> char \<Rightarrow> char \<Rightarrow> char \<Rightarrow> OSCMessage \<Rightarrow> (bool \<times> OSCMessage) option" where
  "add_four c b0 b1 b2 b3 m =
     (if \<not> canAddArg m 4 then Some (False, m)
      else appended (Option.bind (Option.bind (Option.bind (Option.bind (put_tag c m)
             (put_byte b0)) (put_byte b1)) (put_byte b2)) (put_byte b3)))"

definition addMidi :: "8 word \<Rightarrow> 8 word \<Rightarrow> 8 word \<Rightarrow> 8 word \<Rightarrow> OSCMessage \<Rightarrow> (bool \<times> OSCMessage) option" where
  "addMidi port status data1 data2 =
     add_four CHR ''m'' (byte_of port) (byte_of status) (byte_of data1) (byte_of data2)"

definition addChar :: "char \<Rightarrow> OSCMessage \<Rightarrow> (bool \<times> OSCMessage) option" where
  "addChar c = add_four CHR ''c'' NUL NUL NUL c"

definition addColor :: "8 word \<Rightarrow> 8 word \<Rightarrow> 8 word \<Rightarrow> 8 word \<Rightarrow> OSCMessage \<Rightarrow> (bool \<times> OSCMessage) option" where
  "addColor r g b a = add_four CHR ''r'' (byte_of r) (byte_of g) (byte_of b) (byte_of a)"

text \<open>
  \<^verbatim>\<open>OSCMessage::build\<close>.  The result is the return value together with the bytes written
  to \<^verbatim>\<open>outBuffer\<close>: the function writes the positions \<open>0, 1, 2, \<dots>\<close> in this order, each once,
  so the write position \<^verbatim>\<open>pos\<close> is the length of what has been written.  \<open>read_array a n\<close> is
  the source of \<^verbatim>\<open>memcpy(_, a, n)\<close>; a write at or beyond \<^verbatim>\<open>maxSize\<close> leaves the caller's buffer.
\<close>

definition read_array :: "char list \<Rightarrow> nat \<Rightarrow> char list option" where
  "read_array a n = (if n \<le> length a then Some (take n a) else None)"

function pad_out :: "char list \<Rightarrow> char list" where
  "pad_out out = (if length out mod 4 \<noteq> 0 then pad_out (out @ [NUL]) else out)"
  by pat_completeness auto
termination
  by (relation "measure (\<lambda>out. (4 - length out mod 4) mod 4)") (auto simp: mod_Suc)

declare pad_out.simps [simp del]

definition build :: "OSCMessage \<Rightarrow> nat \<Rightarrow> (nat \<times> char list) option" where
  "build m maxSize =
     (let typeTagSize = 1 + mTypeTagCount m + 1;
          typeTagPadded = align4 typeTagSize;
          totalSize = mAddressSize m + typeTagPadded + mArgBufferSize m
      in if totalSize > maxSize \<or> mAddressSize m = 0 then Some (0, [])
         else case read_array (mAddress m) (mAddressSize m) of
           None \<Rightarrow> None
         | Some a \<Rightarrow>
         (case read_array (mTypeTags m) (mTypeTagCount m) of
           None \<Rightarrow> None
         | Some t \<Rightarrow>
         (case read_array (mArgBuffer m) (mArgBufferSize m) of
           None \<Rightarrow> None
         | Some b \<Rightarrow>
           (let out = pad_out (a @ [CHR '',''] @ t @ [NUL]) @ b
            in if length out \<le> maxSize then Some (length out, out) else None))))"

subsection \<open>Bundle builder\<close>

record OSCBundle =
  mBuffer :: "char list"
  mBufferSize :: nat

definition bundle_clear :: OSCBundle where
  "bundle_clear =
     \<lparr>mBuffer = ''#bundle'' @ [NUL] @ replicate (MAX_BUNDLE_SIZE - 8) NUL, mBufferSize = 16\<rparr>"

definition setTimetag :: "OSCTimetag \<Rightarrow> OSCBundle \<Rightarrow> OSCBundle option" where
  "setTimetag tt b =
     (case memcpy (mBuffer b) 8 (le_bytes32 (swap_endian32 (seconds tt))) 4 of
        None \<Rightarrow> None
      | Some b1 \<Rightarrow>
          map_option (\<lambda>b2. b\<lparr>mBuffer := b2\<rparr>)
            (memcpy b1 12 (le_bytes32 (swap_endian32 (fractions tt))) 4))"

definition addMessage :: "OSCMessage \<Rightarrow> OSCBundle \<Rightarrow> (bool \<times> OSCBundle) option" where
  "addMessage msg b =
     (case build msg MAX_MESSAGE_SIZE of
        None \<Rightarrow> None
      | Some (msgSize, msgBuffer) \<Rightarrow>
          if msgSize = 0 then Some (False, b)
          else if mBufferSize b + 4 + msgSize > MAX_BUNDLE_SIZE then Some (False, b)
          else
            (case memcpy (mBuffer b) (mBufferSize b)
                    (le_bytes32 (swap_endian32 (word_of_nat msgSize))) 4 of
               None \<Rightarrow> None
             | Some b1 \<Rightarrow>
                 (case memcpy b1 (mBufferSize b + 4) msgBuffer msgSize of
                    None \<Rightarrow> None
                  | Some b2 \<Rightarrow>
                      Some (True, b\<lparr>mBuffer := b2, mBufferSize := mBufferSize b + 4 + msgSize\<rparr>))))"

subsection \<open>Message parser\<close>

text \<open>
  A pointer held by a view refers into the parsed buffer (as an offset), is null, or refers
  to the string literal \<^verbatim>\<open>""\<close>.
\<close>

datatype cptr = nullptr | in_buffer nat | empty_literal

text \<open>
  \<^verbatim>\<open>OSCArg\<close>.  The anonymous union is \<open>val\<close>; \<open>Unset\<close> and \<^const>\<open>None\<close> stand for a member the
  parser has not written for this argument.  \<open>sptr\<close> (the member \<^verbatim>\<open>s\<close>) and \<open>blobData\<close> are
  offsets into the parsed buffer, \<^const>\<open>None\<close> being \<^verbatim>\<open>nullptr\<close>.
\<close>

datatype arg_union =
    Unset
  | Int32 "32 word"
  | Float32 "32 word"
  | Int64 "64 word"
  | Float64 "64 word"
  | Timetag OSCTimetag
  | Midi "8 word" "8 word" "8 word" "8 word"
  | Color "8 word" "8 word" "8 word" "8 word"
  | Char char

record OSCArg =
  type :: char
  val :: arg_union
  sptr :: "nat option"
  blobData :: "nat option"
  blobSize :: "32 word option"

text \<open>
  \<^verbatim>\<open>OSCMessageView\<close>.  \<open>address\<close> and \<open>typeTags\<close> are \<^verbatim>\<open>mAddress\<close> and \<^verbatim>\<open>mTypeTags\<close>, named after
  their accessors; \<open>mArgs\<close> holds the slots below \<^verbatim>\<open>mArgCount\<close>, the only ones \<^verbatim>\<open>arg(index)\<close>
  gives out, so \<^verbatim>\<open>mArgCount\<close> is its length.
\<close>

record OSCMessageView =
  address :: cptr
  typeTags :: cptr
  mArgs :: "OSCArg list"

definition argCount :: "OSCMessageView \<Rightarrow> nat" where
  "argCount v = length (mArgs v)"

definition view_clear :: OSCMessageView where
  "view_clear = \<lparr>address = nullptr, typeTags = nullptr, mArgs = []\<rparr>"

text \<open>The loop \<^verbatim>\<open>while (pos < size && buffer[pos] != '\0') pos++;\<close>.\<close>

function scan_nul :: "char list \<Rightarrow> nat \<Rightarrow> nat \<Rightarrow> nat option" where
  "scan_nul buffer size' pos =
     (if pos < size'
      then (case peek buffer size' pos of
              None \<Rightarrow> None
            | Some c \<Rightarrow> if c \<noteq> NUL then scan_nul buffer size' (Suc pos) else Some pos)
      else Some pos)"
  by pat_completeness auto
termination
  by (relation "measure (\<lambda>(buffer, size', pos). size' - pos)") auto

declare scan_nul.simps [simp del]

text \<open>
  The body of the \<^verbatim>\<open>switch\<close> for one type tag \<open>t\<close> at position \<open>pos\<close>.  \<open>Some None\<close> is
  \<^verbatim>\<open>return false\<close>; \<open>Some (Some (pos', arg))\<close> is reaching \<^verbatim>\<open>break\<close> with the new position and
  the filled slot.
\<close>

definition parse_arg :: "char list \<Rightarrow> nat \<Rightarrow> nat \<Rightarrow> char \<Rightarrow> (nat \<times> OSCArg) option option" where
  "parse_arg buffer size' pos t =
     (let arg = \<lparr>type = t, val = Unset, sptr = None, blobData = None, blobSize = None\<rparr> in
      if t = CHR ''i'' then
        (if pos + 4 > size' then Some None
         else map_option (\<lambda>bs. Some (pos + 4, arg\<lparr>val := Int32 (swap_endian32 (le_word32 bs))\<rparr>))
                (peeks buffer size' pos 4))
      else if t = CHR ''f'' then
        (if pos + 4 > size' then Some None
         else map_option (\<lambda>bs. Some (pos + 4, arg\<lparr>val := Float32 (swap_endian32 (le_word32 bs))\<rparr>))
                (peeks buffer size' pos 4))
      else if t = CHR ''s'' \<or> t = CHR ''S'' then
        (case scan_nul buffer size' pos of
           None \<Rightarrow> None
         | Some p \<Rightarrow>
             if p \<ge> size' then Some None
             else Some (Some (align4 (p + 1), arg\<lparr>sptr := Some pos\<rparr>)))
      else if t = CHR ''b'' then
        (if pos + 4 > size' then Some None
         else case peeks buffer size' pos 4 of
           None \<Rightarrow> None
         | Some bs \<Rightarrow>
             (let n = swap_endian32 (le_word32 bs); pos1 = pos + 4 in
              if sz (pos1 + unat n) > size' then Some None
              else Some (Some (align4 (sz (pos1 + unat n)),
                               arg\<lparr>blobData := Some pos1, blobSize := Some n\<rparr>))))
      else if t = CHR ''h'' then
        (if pos + 8 > size' then Some None
         else map_option (\<lambda>bs. Some (pos + 8, arg\<lparr>val := Int64 (swap_endian64 (le_word64 bs))\<rparr>))
                (peeks buffer size' pos 8))
      else if t = CHR ''d'' then
        (if pos + 8 > size' then Some None
         else map_option (\<lambda>bs. Some (pos + 8, arg\<lparr>val := Float64 (swap_endian64 (le_word64 bs))\<rparr>))
                (peeks buffer size' pos 8))
      else if t = CHR ''t'' then
        (if pos + 8 > size' then Some None
         else case peeks buffer size' pos 4 of
           None \<Rightarrow> None
         | Some bs \<Rightarrow>
             map_option (\<lambda>bf. Some (pos + 8,
                  arg\<lparr>val := Timetag \<lparr>seconds = swap_endian32 (le_word32 bs),
                                        fractions = swap_endian32 (le_word32 bf)\<rparr>\<rparr>))
               (peeks buffer size' (pos + 4) 4))
      else if t = CHR ''m'' then
        (if pos + 4 > size' then Some None
         else map_option (\<lambda>bs. Some (pos + 4,
                  arg\<lparr>val := Midi (word_of_byte (bs ! 0)) (word_of_byte (bs ! 1))
                                    (word_of_byte (bs ! 2)) (word_of_byte (bs ! 3))\<rparr>))
                (peeks buffer size' pos 4))
      else if t = CHR ''c'' then
        (if pos + 4 > size' then Some None
         else map_option (\<lambda>c. Some (pos + 4, arg\<lparr>val := Char c\<rparr>))
                (peek buffer size' (pos + 3)))
      else if t = CHR ''r'' then
        (if pos + 4 > size' then Some None
         else map_option (\<lambda>bs. Some (pos + 4,
                  arg\<lparr>val := Color (word_of_byte (bs ! 0)) (word_of_byte (bs ! 1))
                                     (word_of_byte (bs ! 2)) (word_of_byte (bs ! 3))\<rparr>))
                (peeks buffer size' pos 4))
      else if t = CHR ''T'' \<or> t = CHR ''F'' \<or> t = CHR ''N'' \<or> t = CHR ''I'' then
        Some (Some (pos, arg))
      else Some (Some (pos, arg)))"

text \<open>
  The loop \<^verbatim>\<open>while (*types && mArgCount < MAX_ARGS)\<close>: \<open>types\<close> is the offset the pointer
  \<^verbatim>\<open>types\<close> refers to.  The view is part of the result also when the function returns
  \<^verbatim>\<open>false\<close>; the slot being filled at that moment lies at \<^verbatim>\<open>mArgCount\<close> and is not counted.
\<close>

function parse_args ::
  "char list \<Rightarrow> nat \<Rightarrow> nat \<Rightarrow> nat \<Rightarrow> OSCMessageView \<Rightarrow> (bool \<times> OSCMessageView) option" where
  "parse_args buffer size' types pos v =
     (case peek buffer size' types of
        None \<Rightarrow> None
      | Some t \<Rightarrow>
          if t \<noteq> NUL \<and> length (mArgs v) < MAX_ARGS
          then (case parse_arg buffer size' pos t of
                  None \<Rightarrow> None
                | Some None \<Rightarrow> Some (False, v)
                | Some (Some (pos', arg)) \<Rightarrow>
                    parse_args buffer size' (Suc types) pos' (v\<lparr>mArgs := mArgs v @ [arg]\<rparr>))
          else Some (True, v))"
  by pat_completeness auto
termination
  by (relation "measure (\<lambda>(buffer, size', types, pos, v). size' - types)")
     (auto simp: peek_def split: if_splits)

declare parse_args.simps [simp del]

text \<open>
  \<^verbatim>\<open>OSCMessageView::parse\<close>, in two parts: \<open>parse\<close> is the function up to the end of the
  address, \<open>parse_tags\<close> the rest of its body, from the comment \<^verbatim>\<open>// Parse type tag string\<close> on,
  entered at the aligned position \<open>pos\<close> with the view \<open>v\<close> as it is at that moment.
\<close>

definition parse_tags ::
  "char list \<Rightarrow> nat \<Rightarrow> nat \<Rightarrow> OSCMessageView \<Rightarrow> (bool \<times> OSCMessageView) option" where
  "parse_tags buffer size' pos v =
     (case (if pos \<ge> size' then Some True
            else map_option (\<lambda>c. c \<noteq> CHR '','') (peek buffer size' pos)) of
        None \<Rightarrow> None
      | Some True \<Rightarrow> Some (True, v\<lparr>typeTags := empty_literal\<rparr>)
      | Some False \<Rightarrow>
          (case scan_nul buffer size' pos of
             None \<Rightarrow> None
           | Some q \<Rightarrow>
               if q \<ge> size' then Some (False, v\<lparr>typeTags := in_buffer (pos + 1)\<rparr>)
               else parse_args buffer size' (pos + 1) (align4 (q + 1))
                      (v\<lparr>typeTags := in_buffer (pos + 1)\<rparr>)))"

definition parse :: "char list \<Rightarrow> nat \<Rightarrow> (bool \<times> OSCMessageView) option" where
  "parse buffer size' =
     (if size' < 4 then Some (False, view_clear)
      else case peek buffer size' 0 of
        None \<Rightarrow> None
      | Some c0 \<Rightarrow>
          if c0 \<noteq> CHR ''/'' then Some (False, view_clear)
          else
            (case scan_nul buffer size' 0 of
               None \<Rightarrow> None
             | Some p \<Rightarrow>
                 if p \<ge> size' then Some (False, view_clear\<lparr>address := in_buffer 0\<rparr>)
                 else parse_tags buffer size' (align4 (p + 1))
                        (view_clear\<lparr>address := in_buffer 0\<rparr>)))"

subsection \<open>Bundle dispatcher\<close>

text \<open>
  \<^verbatim>\<open>OSCServer::parseBundle\<close>.  The result is the sequence of calls of \<^verbatim>\<open>mCallback\<close>, each with
  the bytes of the element and the view parsed from them.  \<^verbatim>\<open>elemSize\<close> is positive where
  it is converted to \<^verbatim>\<open>size_t\<close>, so the conversion is \<^const>\<open>unat\<close> and the sum with a position
  inside the buffer does not wrap.  \<^verbatim>\<open>memcmp(elemData, "#bundle", 7) == 0\<close> compares the first
  seven bytes.
\<close>

type_synonym callback = "char list \<times> OSCMessageView"

function parseBundle_loop :: "char list \<Rightarrow> nat \<Rightarrow> nat \<Rightarrow> callback list option" where
  "parseBundle_loop buffer size' pos =
     (if pos + 4 \<le> size'
      then (case peeks buffer size' pos 4 of
              None \<Rightarrow> None
            | Some bs \<Rightarrow>
                (let elemSize = swap_endian32 (le_word32 bs); pos1 = pos + 4 in
                 if sint elemSize \<le> 0 \<or> pos1 + unat elemSize > size' then Some []
                 else
                   (let elemData = drop pos1 buffer; n = unat elemSize in
                    case (if n \<ge> 8 \<and> take 7 elemData = ''#bundle''
                          then parseBundle_loop elemData n 16
                          else (case parse elemData n of
                                  None \<Rightarrow> None
                                | Some (ok, msg) \<Rightarrow>
                                    Some (if ok then [(take n elemData, msg)] else []))) of
                      None \<Rightarrow> None
                    | Some calls \<Rightarrow>
                        (case parseBundle_loop buffer size' (pos1 + n) of
                           None \<Rightarrow> None
                         | Some calls' \<Rightarrow> Some (calls @ calls')))))
      else Some [])"
  by pat_completeness auto
termination
  by (relation "measures [\<lambda>(buffer, size', pos). size', \<lambda>(buffer, size', pos). size' - pos]")
     auto

declare parseBundle_loop.simps [simp del]

definition parseBundle :: "char list \<Rightarrow> nat \<Rightarrow> callback list option" where
  "parseBundle buffer size' = parseBundle_loop buffer size' 16"

subsection \<open>Address pattern matcher\<close>

text \<open>
  \<^verbatim>\<open>OSCMessageView::matchPattern\<close>.  The outer \<^verbatim>\<open>while (*pattern && *str)\<close> loop is the
  recursion of \<open>matchPattern\<close>; the inner \<^verbatim>\<open>while (*str)\<close> loop of the \<^verbatim>\<open>'*'\<close> branch is
  \<open>matchStar\<close>; the two statements after the outer loop are \<open>matchEnd\<close>.
\<close>

definition matchEnd :: "string \<Rightarrow> string \<Rightarrow> bool" where
  "matchEnd pattern str = (dropWhile (\<lambda>c. c = CHR ''*'') pattern = [] \<and> str = [])"

function matchPattern :: "string \<Rightarrow> string \<Rightarrow> bool"
  and matchStar :: "string \<Rightarrow> string \<Rightarrow> bool" where
  "matchPattern [] str = matchEnd [] str"
| "matchPattern (p # ps) [] = matchEnd (p # ps) []"
| "matchPattern (p # ps) (c # cs) =
     (if p = CHR ''*'' then (if ps = [] then True else matchStar ps (c # cs))
      else if p = CHR ''?'' \<or> p = c then matchPattern ps cs
      else False)"
| "matchStar pattern [] = False"
| "matchStar pattern (c # cs) =
     (if matchPattern pattern (c # cs) then True else matchStar pattern cs)"
  by pat_completeness auto
termination
  by (relation "measure (\<lambda>x. case x of
        Inl (p, s) \<Rightarrow> 2 * (length p + length s)
      | Inr (p, s) \<Rightarrow> 2 * (length p + length s) + 1)") auto

text \<open>
  The matcher as the specification words it: \<open>*\<close> stands for any sequence of characters
  (possibly none), \<open>?\<close> for exactly one character, any other character for itself, and the
  whole input has to be used up.
\<close>

fun glob :: "string \<Rightarrow> string \<Rightarrow> bool" where
  "glob [] s = (s = [])"
| "glob (p # ps) s =
     (if p = CHR ''*'' then list_ex (\<lambda>k. glob ps (drop k s)) [0..<Suc (length s)]
      else (case s of [] \<Rightarrow> False | c # cs \<Rightarrow> (p = CHR ''?'' \<or> p = c) \<and> glob ps cs))"

text \<open>Rounding up to a multiple of four, without the wrap-around.\<close>

definition up4 :: "nat \<Rightarrow> nat" where
  "up4 n = (n + 3) div 4 * 4"

subsection \<open>Calls of the builder and values of arguments\<close>

text \<open>
  A call of one of the fourteen append operations with its arguments; \<open>call\<close> performs it.
  \<open>append_all\<close> is a sequence of calls that all return \<^verbatim>\<open>true\<close>, and \<open>assemble\<close> is a fresh
  builder on which \<^verbatim>\<open>setAddress\<close> and then such a sequence are called.
\<close>

datatype append_call =
    AddInt "32 word"
  | AddFloat "32 word"
  | AddString string
  | AddBlob "char list" "32 word"
  | AddInt64 "64 word"
  | AddDouble "64 word"
  | AddTimetag OSCTimetag
  | AddTrue
  | AddFalse
  | AddNil
  | AddInfinitum
  | AddMidi "8 word" "8 word" "8 word" "8 word"
  | AddChar char
  | AddColor "8 word" "8 word" "8 word" "8 word"

fun call :: "append_call \<Rightarrow> OSCMessage \<Rightarrow> (bool \<times> OSCMessage) option" where
  "call (AddInt v) = addInt v"
| "call (AddFloat v) = addFloat v"
| "call (AddString v) = addString v"
| "call (AddBlob d n) = addBlob d n"
| "call (AddInt64 v) = addInt64 v"
| "call (AddDouble v) = addDouble v"
| "call (AddTimetag tt) = addTimetag tt"
| "call AddTrue = addTrue"
| "call AddFalse = addFalse"
| "call AddNil = addNil"
| "call AddInfinitum = addInfinitum"
| "call (AddMidi p st d1 d2) = addMidi p st d1 d2"
| "call (AddChar c) = addChar c"
| "call (AddColor r g b a) = addColor r g b a"

fun append_all :: "append_call list \<Rightarrow> OSCMessage \<Rightarrow> OSCMessage option" where
  "append_all [] m = Some m"
| "append_all (c # cs) m =
     (case call c m of
        Some (True, m') \<Rightarrow> append_all cs m'
      | _ \<Rightarrow> None)"

definition assemble :: "string \<Rightarrow> append_call list \<Rightarrow> OSCMessage option" where
  "assemble a cs =
     (case setAddress a msg_clear of
        Some (True, m) \<Rightarrow> append_all cs m
      | _ \<Rightarrow> None)"

text \<open>
  The type tag and the wire form of the argument a call appends, as the table of argument
  encodings has them: big-endian integers, strings terminated and padded to a multiple of
  four, blobs with a length prefix and padded.
\<close>

fun tag_of :: "append_call \<Rightarrow> char" where
  "tag_of (AddInt v) = CHR ''i''"
| "tag_of (AddFloat v) = CHR ''f''"
| "tag_of (AddString v) = CHR ''s''"
| "tag_of (AddBlob d n) = CHR ''b''"
| "tag_of (AddInt64 v) = CHR ''h''"
| "tag_of (AddDouble v) = CHR ''d''"
| "tag_of (AddTimetag tt) = CHR ''t''"
| "tag_of AddTrue = CHR ''T''"
| "tag_of AddFalse = CHR ''F''"
| "tag_of AddNil = CHR ''N''"
| "tag_of AddInfinitum = CHR ''I''"
| "tag_of (AddMidi p st d1 d2) = CHR ''m''"
| "tag_of (AddChar c) = CHR ''c''"
| "tag_of (AddColor r g b a) = CHR ''r''"

definition be32 :: "32 word \<Rightarrow> char list" where
  "be32 w = le_bytes32 (swap_endian32 w)"

definition be64 :: "64 word \<Rightarrow> char list" where
  "be64 w = le_bytes64 (swap_endian64 w)"

fun payload :: "append_call \<Rightarrow> char list" where
  "payload (AddInt v) = be32 v"
| "payload (AddFloat v) = be32 v"
| "payload (AddString v) = v @ replicate (up4 (length v + 1) - length v) NUL"
| "payload (AddBlob d n) = be32 n @ take (unat n) d @ replicate (up4 (unat n) - unat n) NUL"
| "payload (AddInt64 v) = be64 v"
| "payload (AddDouble v) = be64 v"
| "payload (AddTimetag tt) = be32 (seconds tt) @ be32 (fractions tt)"
| "payload AddTrue = []"
| "payload AddFalse = []"
| "payload AddNil = []"
| "payload AddInfinitum = []"
| "payload (AddMidi p st d1 d2) = [byte_of p, byte_of st, byte_of d1, byte_of d2]"
| "payload (AddChar c) = [NUL, NUL, NUL, c]"
| "payload (AddColor r g b a) = [byte_of r, byte_of g, byte_of b, byte_of a]"

text \<open>
  What a call hands over: a string argument is a C string, so it has no \<^verbatim>\<open>NUL\<close> inside;
  of a blob, the first \<open>size\<close> bytes of the memory behind the pointer.
\<close>

fun c_string_arg :: "append_call \<Rightarrow> bool" where
  "c_string_arg (AddString v) = (NUL \<notin> set v)"
| "c_string_arg _ = True"

fun sent :: "append_call \<Rightarrow> append_call" where
  "sent (AddBlob d n) = AddBlob (take (unat n) d) n"
| "sent c = c"

text \<open>
  What the application reads through a parsed view: the C string a pointer refers to, and
  the value of an argument slot according to its type tag, as a call that sends it.
\<close>

definition c_string :: "char list \<Rightarrow> nat \<Rightarrow> string" where
  "c_string buffer p = takeWhile (\<lambda>c. c \<noteq> NUL) (drop p buffer)"

fun deref :: "char list \<Rightarrow> cptr \<Rightarrow> string option" where
  "deref buffer nullptr = None"
| "deref buffer (in_buffer p) = Some (c_string buffer p)"
| "deref buffer empty_literal = Some []"

definition received :: "char list \<Rightarrow> OSCArg \<Rightarrow> append_call option" where
  "received buffer a =
     (if type a = CHR ''i'' then (case val a of Int32 w \<Rightarrow> Some (AddInt w) | _ \<Rightarrow> None)
      else if type a = CHR ''f'' then (case val a of Float32 w \<Rightarrow> Some (AddFloat w) | _ \<Rightarrow> None)
      else if type a = CHR ''s'' then map_option (\<lambda>p. AddString (c_string buffer p)) (sptr a)
      else if type a = CHR ''b'' then
        (case (blobData a, blobSize a) of
           (Some p, Some n) \<Rightarrow> Some (AddBlob (take (unat n) (drop p buffer)) n)
         | _ \<Rightarrow> None)
      else if type a = CHR ''h'' then (case val a of Int64 w \<Rightarrow> Some (AddInt64 w) | _ \<Rightarrow> None)
      else if type a = CHR ''d'' then (case val a of Float64 w \<Rightarrow> Some (AddDouble w) | _ \<Rightarrow> None)
      else if type a = CHR ''t'' then (case val a of Timetag tt \<Rightarrow> Some (AddTimetag tt) | _ \<Rightarrow> None)
      else if type a = CHR ''T'' then Some AddTrue
      else if type a = CHR ''F'' then Some AddFalse
      else if type a = CHR ''N'' then Some AddNil
      else if type a = CHR ''I'' then Some AddInfinitum
      else if type a = CHR ''m'' then
        (case val a of Midi p st d1 d2 \<Rightarrow> Some (AddMidi p st d1 d2) | _ \<Rightarrow> None)
      else if type a = CHR ''c'' then (case val a of Char c \<Rightarrow> Some (AddChar c) | _ \<Rightarrow> None)
      else if type a = CHR ''r'' then
        (case val a of Color r g b al \<Rightarrow> Some (AddColor r g b al) | _ \<Rightarrow> None)
      else None)"

text \<open>The slot the parser fills for the argument of a call whose wire form lies at \<open>pos\<close>.\<close>

definition empty_slot :: "char \<Rightarrow> OSCArg" where
  "empty_slot t = \<lparr>type = t, val = Unset, sptr = None, blobData = None, blobSize = None\<rparr>"

fun slot :: "append_call \<Rightarrow> nat \<Rightarrow> OSCArg" where
  "slot (AddInt v) pos = (empty_slot CHR ''i'')\<lparr>val := Int32 v\<rparr>"
| "slot (AddFloat v) pos = (empty_slot CHR ''f'')\<lparr>val := Float32 v\<rparr>"
| "slot (AddString v) pos = (empty_slot CHR ''s'')\<lparr>sptr := Some pos\<rparr>"
| "slot (AddBlob d n) pos = (empty_slot CHR ''b'')\<lparr>blobData := Some (pos + 4), blobSize := Some n\<rparr>"
| "slot (AddInt64 v) pos = (empty_slot CHR ''h'')\<lparr>val := Int64 v\<rparr>"
| "slot (AddDouble v) pos = (empty_slot CHR ''d'')\<lparr>val := Float64 v\<rparr>"
| "slot (AddTimetag tt) pos = (empty_slot CHR ''t'')\<lparr>val := Timetag tt\<rparr>"
| "slot AddTrue pos = empty_slot CHR ''T''"
| "slot AddFalse pos = empty_slot CHR ''F''"
| "slot AddNil pos = empty_slot CHR ''N''"
| "slot AddInfinitum pos = empty_slot CHR ''I''"
| "slot (AddMidi p st d1 d2) pos = (empty_slot CHR ''m'')\<lparr>val := Midi p st d1 d2\<rparr>"
| "slot (AddChar c) pos = (empty_slot CHR ''c'')\<lparr>val := Char c\<rparr>"
| "slot (AddColor r g b a) pos = (empty_slot CHR ''r'')\<lparr>val := Color r g b a\<rparr>"

text \<open>
  The class invariant of the builder, the live part of its buffers, and \<open>extends m m' ts bs\<close>:
  the builder \<open>m'\<close> is \<open>m\<close> with the tags \<open>ts\<close> and the argument bytes \<open>bs\<close> appended.
\<close>

definition msg_wf :: "OSCMessage \<Rightarrow> bool" where
  "msg_wf m =
     (length (mAddress m) = MAX_ADDRESS_SIZE \<and> length (mTypeTags m) = MAX_TYPE_TAG_SIZE \<and>
      length (mArgBuffer m) = MAX_ARG_BUFFER_SIZE \<and> mAddressSize m \<le> MAX_ADDRESS_SIZE \<and>
      mTypeTagCount m \<le> MAX_TYPE_TAG_SIZE - 1 \<and> mArgBufferSize m \<le> MAX_ARG_BUFFER_SIZE)"

definition live_address :: "OSCMessage \<Rightarrow> char list" where
  "live_address m = take (mAddressSize m) (mAddress m)"

definition live_tags :: "OSCMessage \<Rightarrow> char list" where
  "live_tags m = take (mTypeTagCount m) (mTypeTags m)"

definition live_args :: "OSCMessage \<Rightarrow> char list" where
  "live_args m = take (mArgBufferSize m) (mArgBuffer m)"

definition extends :: "OSCMessage \<Rightarrow> OSCMessage \<Rightarrow> char list \<Rightarrow> char list \<Rightarrow> bool" where
  "extends m m' ts bs =
     (msg_wf m' \<and> mAddress m' = mAddress m \<and> mAddressSize m' = mAddressSize m \<and>
      mTypeTagCount m' = mTypeTagCount m + length ts \<and>
      mArgBufferSize m' = mArgBufferSize m + length bs \<and>
      live_tags m' = live_tags m @ ts \<and> live_args m' = live_args m @ bs)"

text \<open>
  A blob call whose declared size does not exceed the memory handed over; \<open>built m a cs\<close>:
  the builder \<open>m\<close> holds the address \<open>a\<close> and the arguments of the calls \<open>cs\<close>.
\<close>

fun blob_fits :: "append_call \<Rightarrow> bool" where
  "blob_fits (AddBlob d n) = (unat n \<le> length d)"
| "blob_fits _ = True"

definition pad0 :: "char list \<Rightarrow> char list" where
  "pad0 xs = xs @ replicate (up4 (length xs) - length xs) NUL"

definition built :: "OSCMessage \<Rightarrow> string \<Rightarrow> append_call list \<Rightarrow> bool" where
  "built m a cs =
     (msg_wf m \<and> mAddressSize m = up4 (length a + 1) \<and> live_address m = pad0 (a @ [NUL]) \<and>
      mTypeTagCount m = length cs \<and> live_tags m = map tag_of cs \<and>
      mArgBufferSize m = length (concat (map payload cs)) \<and>
      live_args m = concat (map payload cs) \<and> (\<forall>c\<in>set cs. blob_fits c))"

text \<open>
  The wire form of a message: the address, terminated and padded; the comma, the type tags,
  the terminator and padding; the arguments.
\<close>

definition wire :: "string \<Rightarrow> append_call list \<Rightarrow> char list" where
  "wire a cs =
     pad0 (a @ [NUL]) @ pad0 (CHR '','' # map tag_of cs @ [NUL]) @ concat (map payload cs)"

text \<open>The slots of consecutive arguments from \<open>pos\<close> on.\<close>

fun slots :: "append_call list \<Rightarrow> nat \<Rightarrow> OSCArg list" where
  "slots [] pos = []"
| "slots (c # cs) pos = slot c pos # slots cs (pos + length (payload c))"

text \<open>
  A blob slot whose bytes lie inside a buffer of \<open>size'\<close> bytes: the declared length is not
  negative and the bytes, from the reference on, end at or before \<open>size'\<close>; a slot without
  blob has neither a reference nor a size.
\<close>

definition blob_in_bounds :: "nat \<Rightarrow> OSCArg \<Rightarrow> bool" where
  "blob_in_bounds size' a =
     (case (blobData a, blobSize a) of
        (Some off, Some n) \<Rightarrow> 0 \<le> sint n \<and> off + unat n \<le> size'
      | (None, None) \<Rightarrow> True
      | _ \<Rightarrow> False)"

text \<open>A blob slot whose declared length is negative.\<close>

definition negative_length :: "OSCArg \<Rightarrow> bool" where
  "negative_length a = (case blobSize a of Some n \<Rightarrow> sint n < 0 | None \<Rightarrow> False)"

text \<open>
  The first \<open>k\<close> arguments of a message: \<open>decoded buffer size' types pos k\<close> applies the
  \<^verbatim>\<open>switch\<close> to the \<open>k\<close> type tags from \<open>types\<close> on, one after the other from the position
  \<open>pos\<close>, and gives the position after them and their slots; it is \<^const>\<open>None\<close> if one of
  the \<open>k\<close> tags is the terminator or its argument is not decoded.
\<close>

fun decoded :: "char list \<Rightarrow> nat \<Rightarrow> nat \<Rightarrow> nat \<Rightarrow> nat \<Rightarrow> (nat \<times> OSCArg list) option" where
  "decoded buffer size' types pos 0 = Some (pos, [])"
| "decoded buffer size' types pos (Suc k) =
     (case peek buffer size' types of
        None \<Rightarrow> None
      | Some t \<Rightarrow>
          if t = NUL then None
          else (case parse_arg buffer size' pos t of
                  Some (Some (pos', arg)) \<Rightarrow>
                    (case decoded buffer size' (Suc types) pos' k of
                       None \<Rightarrow> None
                     | Some (pos'', args) \<Rightarrow> Some (pos'', arg # args))
                | _ \<Rightarrow> None))"

text \<open>
  What the body of the loop of \<^verbatim>\<open>parseBundle\<close> does with one element: the \<^verbatim>\<open>if\<close> that
  tells a nested bundle from a message, with both branches.
\<close>

definition element :: "char list \<Rightarrow> nat \<Rightarrow> callback list option" where
  "element elemData n =
     (if n \<ge> 8 \<and> take 7 elemData = ''#bundle''
      then parseBundle_loop elemData n 16
      else (case parse elemData n of
              None \<Rightarrow> None
            | Some (ok, msg) \<Rightarrow> Some (if ok then [(take n elemData, msg)] else [])))"

subsection \<open>Calls of the bundle builder\<close>

text \<open>
  A call of the bundle builder: \<^verbatim>\<open>setTimetag\<close>, or \<^verbatim>\<open>addMessage\<close> with a message that was
  assembled on a fresh builder from an address and a sequence of append calls.
  \<open>bundle_calls\<close> is a sequence of such calls in which every \<^verbatim>\<open>addMessage\<close> returns \<^verbatim>\<open>true\<close>;
  \<open>added\<close> lists the messages of the sequence.  \<open>delivered\<close> hands the bytes \<^verbatim>\<open>data()\<close> of a
  bundle, with their number \<^verbatim>\<open>size()\<close>, to the dispatcher.
\<close>

datatype bundle_call = SetTimetag OSCTimetag | AddMessage string "append_call list"

fun bundle_calls :: "bundle_call list \<Rightarrow> OSCBundle \<Rightarrow> OSCBundle option" where
  "bundle_calls [] b = Some b"
| "bundle_calls (SetTimetag tt # cs) b =
     (case setTimetag tt b of None \<Rightarrow> None | Some b' \<Rightarrow> bundle_calls cs b')"
| "bundle_calls (AddMessage a args # cs) b =
     (case assemble a args of
        None \<Rightarrow> None
      | Some m \<Rightarrow>
          (case addMessage m b of
             Some (True, b') \<Rightarrow> bundle_calls cs b'
           | _ \<Rightarrow> None))"

fun added :: "bundle_call list \<Rightarrow> (string \<times> append_call list) list" where
  "added [] = []"
| "added (SetTimetag tt # cs) = added cs"
| "added (AddMessage a args # cs) = (a, args) # added cs"

definition delivered :: "OSCBundle \<Rightarrow> callback list option" where
  "delivered b = parseBundle (mBuffer b) (mBufferSize b)"

text \<open>
  A bundle that holds the bytes \<open>es\<close> after its header and time tag; the element of a bundle
  for a message: its size, big-endian, and its bytes.
\<close>

definition bundle_holds :: "OSCBundle \<Rightarrow> char list \<Rightarrow> bool" where
  "bundle_holds b es =
     (length (mBuffer b) = MAX_BUNDLE_SIZE \<and> 16 \<le> mBufferSize b \<and>
      mBufferSize b \<le> MAX_BUNDLE_SIZE \<and>
      take (mBufferSize b - 16) (drop 16 (mBuffer b)) = es)"

definition bundle_element :: "char list \<Rightarrow> char list" where
  "bundle_element w = be32 (word_of_nat (length w)) @ w"

text \<open>
  A message that can be sent: its address starts with \<open>/\<close> and fits the address buffer, the
  address and the string arguments are C strings, every blob has as many bytes as its size
  says, there are at most 63 arguments, their wire forms fit the argument buffer, and the
  whole message fits the buffer \<^verbatim>\<open>addMessage\<close> builds it in.
\<close>

definition sendable :: "string \<Rightarrow> append_call list \<Rightarrow> bool" where
  "sendable a args =
     (a \<noteq> [] \<and> hd a = CHR ''/'' \<and> NUL \<notin> set a \<and> length a < MAX_ADDRESS_SIZE \<and>
      (\<forall>c\<in>set args. c_string_arg c \<and> blob_fits c) \<and>
      length args \<le> MAX_TYPE_TAG_SIZE - 1 \<and>
      length (concat (map payload args)) \<le> MAX_ARG_BUFFER_SIZE \<and>
      length (wire a args) \<le> MAX_MESSAGE_SIZE)"

section \<open>Properties\<close>

subsection \<open>Arithmetic of sizes\<close>

lemma up4_ge: "n \<le> up4 n"
  unfolding up4_def by presburger

lemma up4_lt: "up4 n < n + 4"
  unfolding up4_def by presburger

lemma up4_mod: "up4 n mod 4 = 0"
  unfolding up4_def by simp

lemma up4_id: "n mod 4 = 0 \<Longrightarrow> up4 n = n"
  unfolding up4_def by presburger

lemma up4_Suc: "n mod 4 \<noteq> 0 \<Longrightarrow> up4 (Suc n) = up4 n"
  unfolding up4_def by presburger

lemma up4_gt: "n mod 4 \<noteq> 0 \<Longrightarrow> n < up4 n"
  unfolding up4_def by presburger

lemma up4_mono: "a \<le> b \<Longrightarrow> up4 a \<le> up4 b"
  unfolding up4_def by presburger

lemma up4_add: "a mod 4 = 0 \<Longrightarrow> up4 (a + b) = a + up4 b"
  unfolding up4_def by presburger

lemma sz_id: "n < 4294967296 \<Longrightarrow> sz n = n"
  by (simp add: sz_def)

lemma align4_up4: "n < 4294967293 \<Longrightarrow> align4 n = up4 n"
  by (simp add: align4_def up4_def sz_def)

subsection \<open>Byte order\<close>

lemma mask32_0: "(0x000000FF :: 32 word) = mask 8" by (simp add: mask_eq_exp_minus_1)
lemma mask32_1: "(0x0000FF00 :: 32 word) = push_bit 8 (mask 8)" by (simp add: mask_eq_exp_minus_1 push_bit_eq_mult)
lemma mask32_2: "(0x00FF0000 :: 32 word) = push_bit 16 (mask 8)" by (simp add: mask_eq_exp_minus_1 push_bit_eq_mult)
lemma mask32_3: "(0xFF000000 :: 32 word) = push_bit 24 (mask 8)" by (simp add: mask_eq_exp_minus_1 push_bit_eq_mult)

lemma term32_0: "bit (push_bit 24 ((w :: 32 word) AND mask 8)) n \<longleftrightarrow> 24 \<le> n \<and> n < 32 \<and> bit w (n - 24)"
  by (auto simp: bit_simps)
lemma term32_1: "bit (push_bit 8 ((w :: 32 word) AND push_bit 8 (mask 8))) n \<longleftrightarrow> 16 \<le> n \<and> n < 24 \<and> bit w (n - 8)"
  by (auto simp: bit_simps)
lemma term32_2: "bit (drop_bit 8 ((w :: 32 word) AND push_bit 16 (mask 8))) n \<longleftrightarrow> 8 \<le> n \<and> n < 16 \<and> bit w (8 + n)"
  by (auto simp: bit_simps)
lemma term32_3: "bit (drop_bit 24 ((w :: 32 word) AND push_bit 24 (mask 8))) n \<longleftrightarrow> n < 8 \<and> bit w (24 + n)"
  by (auto simp: bit_simps)


lemma bit_swap32:
  "bit (swap_endian32 w) n \<longleftrightarrow>
     (n < 8 \<and> bit w (24 + n)) \<or> (8 \<le> n \<and> n < 16 \<and> bit w (8 + n)) \<or>
     (16 \<le> n \<and> n < 24 \<and> bit w (n - 8)) \<or> (24 \<le> n \<and> n < 32 \<and> bit w (n - 24))"
  unfolding swap_endian32_def mask32_0 mask32_1 mask32_2 mask32_3 bit_or_iff term32_0 term32_1 term32_2 term32_3 by blast

lemma swap32_inv: "swap_endian32 (swap_endian32 w) = w"
proof (rule bit_word_eqI)
  fix n assume "n < LENGTH(32)"
  then have n: "n < 32" by simp
  consider "n < 8" | "8 \<le> n \<and> n < 16" | "16 \<le> n \<and> n < 24" | "24 \<le> n \<and> n < 32"
    using n by linarith
  then show "bit (swap_endian32 (swap_endian32 w)) n = bit w n"
  proof cases
    case 1
    then show ?thesis by (auto simp: bit_swap32[of _ n] bit_swap32[of w "24 + n"])
  next
    case 2
    then show ?thesis by (auto simp: bit_swap32[of _ n] bit_swap32[of w "8 + n"])
  next
    case 3
    then show ?thesis by (auto simp: bit_swap32[of _ n] bit_swap32[of w "n - 8"])
  next
    case 4
    then show ?thesis by (auto simp: bit_swap32[of _ n] bit_swap32[of w "n - 24"])
  qed
qed

lemma word_of_byte_drop:
  "(word_of_byte (byte_of (drop_bit k w)) :: 'a::len word) = word_of_nat (unat (w :: 'a word) div 2 ^ k mod 256)"
  unfolding word_of_byte_def byte_of_def unat_drop_bit_eq by (simp add: drop_bit_eq_div)

lemma word_of_byte_0:
  "(word_of_byte (byte_of w) :: 'a::len word) = word_of_nat (unat (w :: 'a word) mod 256)"
  by (simp add: word_of_byte_def byte_of_def)

lemma nat_bytes4:
  assumes "x < (4294967296 :: nat)"
  shows "x mod 256 + 256 * (x div 256 mod 256 + 256 * (x div 65536 mod 256 + 256 * (x div 16777216 mod 256))) = x"
proof -
  have a: "x mod 65536 = 256 * (x div 256 mod 256) + x mod 256"
    using mod_mult2_eq[of x 256 256] by simp
  have b: "x mod 16777216 = 65536 * (x div 65536 mod 256) + x mod 65536"
    using mod_mult2_eq[of x 65536 256] by simp
  have c: "x mod 4294967296 = 16777216 * (x div 16777216 mod 256) + x mod 16777216"
    using mod_mult2_eq[of x 16777216 256] by simp
  have "x mod 4294967296 = x" using assms by simp
  with a b c show ?thesis by (simp add: distrib_left)
qed

lemma le_word32_bytes: "le_word32 (le_bytes32 w) = w"
proof -
  have x: "unat w < 4294967296" using unsigned_less[of w] by simp
  have "le_word32 (le_bytes32 w) =
     word_of_nat (unat w mod 256 + 256 * (unat w div 256 mod 256 + 256 * (unat w div 65536 mod 256 + 256 * (unat w div 16777216 mod 256))))"
    using word_of_byte_drop[of 8 w] word_of_byte_drop[of 16 w] word_of_byte_drop[of 24 w]
    by (simp add: le_word32_def le_bytes32_def word_of_byte_0)
  then show ?thesis unfolding nat_bytes4[OF x] by simp
qed

lemma word_of_byte_8: "word_of_byte (byte_of (w :: 8 word)) = w"
proof -
  have "unat w < 256" using unsigned_less[of w] by simp
  then show ?thesis by (simp add: word_of_byte_0)
qed

lemma mask64_0: "(0x00000000000000FF :: 64 word) = mask 8" by (simp add: mask_eq_exp_minus_1)
lemma mask64_1: "(0x000000000000FF00 :: 64 word) = push_bit 8 (mask 8)" by (simp add: mask_eq_exp_minus_1 push_bit_eq_mult)
lemma mask64_2: "(0x0000000000FF0000 :: 64 word) = push_bit 16 (mask 8)" by (simp add: mask_eq_exp_minus_1 push_bit_eq_mult)
lemma mask64_3: "(0x00000000FF000000 :: 64 word) = push_bit 24 (mask 8)" by (simp add: mask_eq_exp_minus_1 push_bit_eq_mult)
lemma mask64_4: "(0x000000FF00000000 :: 64 word) = push_bit 32 (mask 8)" by (simp add: mask_eq_exp_minus_1 push_bit_eq_mult)
lemma mask64_5: "(0x0000FF0000000000 :: 64 word) = push_bit 40 (mask 8)" by (simp add: mask_eq_exp_minus_1 push_bit_eq_mult)
lemma mask64_6: "(0x00FF000000000000 :: 64 word) = push_bit 48 (mask 8)" by (simp add: mask_eq_exp_minus_1 push_bit_eq_mult)
lemma mask64_7: "(0xFF00000000000000 :: 64 word) = push_bit 56 (mask 8)" by (simp add: mask_eq_exp_minus_1 push_bit_eq_mult)

lemma term64_0: "bit (push_bit 56 ((w :: 64 word) AND mask 8)) n \<longleftrightarrow> 56 \<le> n \<and> n < 64 \<and> bit w (n - 56)"
  by (auto simp: bit_simps)
lemma term64_1: "bit (push_bit 40 ((w :: 64 word) AND push_bit 8 (mask 8))) n \<longleftrightarrow> 48 \<le> n \<and> n < 56 \<and> bit w (n - 40)"
  by (auto simp: bit_simps)
lemma term64_2: "bit (push_bit 24 ((w :: 64 word) AND push_bit 16 (mask 8))) n \<longleftrightarrow> 40 \<le> n \<and> n < 48 \<and> bit w (n - 24)"
  by (auto simp: bit_simps)
lemma term64_3: "bit (push_bit 8 ((w :: 64 word) AND push_bit 24 (mask 8))) n \<longleftrightarrow> 32 \<le> n \<and> n < 40 \<and> bit w (n - 8)"
  by (auto simp: bit_simps)
lemma term64_4: "bit (drop_bit 8 ((w :: 64 word) AND push_bit 32 (mask 8))) n \<longleftrightarrow> 24 \<le> n \<and> n < 32 \<and> bit w (8 + n)"
  by (auto simp: bit_simps)
lemma term64_5: "bit (drop_bit 24 ((w :: 64 word) AND push_bit 40 (mask 8))) n \<longleftrightarrow> 16 \<le> n \<and> n < 24 \<and> bit w (24 + n)"
  by (auto simp: bit_simps)
lemma term64_6: "bit (drop_bit 40 ((w :: 64 word) AND push_bit 48 (mask 8))) n \<longleftrightarrow> 8 \<le> n \<and> n < 16 \<and> bit w (40 + n)"
  by (auto simp: bit_simps)
lemma term64_7: "bit (drop_bit 56 ((w :: 64 word) AND push_bit 56 (mask 8))) n \<longleftrightarrow> n < 8 \<and> bit w (56 + n)"
  by (auto simp: bit_simps)

lemma bit_swap64:
  "bit (swap_endian64 w) n \<longleftrightarrow>
     (56 \<le> n \<and> n < 64 \<and> bit w (n - 56)) \<or>
     (48 \<le> n \<and> n < 56 \<and> bit w (n - 40)) \<or>
     (40 \<le> n \<and> n < 48 \<and> bit w (n - 24)) \<or>
     (32 \<le> n \<and> n < 40 \<and> bit w (n - 8)) \<or>
     (24 \<le> n \<and> n < 32 \<and> bit w (8 + n)) \<or>
     (16 \<le> n \<and> n < 24 \<and> bit w (24 + n)) \<or>
     (8 \<le> n \<and> n < 16 \<and> bit w (40 + n)) \<or>
     (n < 8 \<and> bit w (56 + n))"
  unfolding swap_endian64_def mask64_0 mask64_1 mask64_2 mask64_3 mask64_4 mask64_5 mask64_6 mask64_7 bit_or_iff term64_0 term64_1 term64_2 term64_3 term64_4 term64_5 term64_6 term64_7 by blast

lemma range64_0: "0 \<le> n \<Longrightarrow> n < 8 \<Longrightarrow> bit (swap_endian64 w) n = bit w (56 + n)"
  by (simp add: bit_swap64)
lemma range64_1: "8 \<le> n \<Longrightarrow> n < 16 \<Longrightarrow> bit (swap_endian64 w) n = bit w (40 + n)"
  by (simp add: bit_swap64)
lemma range64_2: "16 \<le> n \<Longrightarrow> n < 24 \<Longrightarrow> bit (swap_endian64 w) n = bit w (24 + n)"
  by (simp add: bit_swap64)
lemma range64_3: "24 \<le> n \<Longrightarrow> n < 32 \<Longrightarrow> bit (swap_endian64 w) n = bit w (8 + n)"
  by (simp add: bit_swap64)
lemma range64_4: "32 \<le> n \<Longrightarrow> n < 40 \<Longrightarrow> bit (swap_endian64 w) n = bit w (n - 8)"
  by (simp add: bit_swap64)
lemma range64_5: "40 \<le> n \<Longrightarrow> n < 48 \<Longrightarrow> bit (swap_endian64 w) n = bit w (n - 24)"
  by (simp add: bit_swap64)
lemma range64_6: "48 \<le> n \<Longrightarrow> n < 56 \<Longrightarrow> bit (swap_endian64 w) n = bit w (n - 40)"
  by (simp add: bit_swap64)
lemma range64_7: "56 \<le> n \<Longrightarrow> n < 64 \<Longrightarrow> bit (swap_endian64 w) n = bit w (n - 56)"
  by (simp add: bit_swap64)

lemma swap64_inv: "swap_endian64 (swap_endian64 w) = w"
proof (rule bit_word_eqI)
  fix n assume "n < LENGTH(64)"
  then have n: "n < 64" by simp
  have h0: "bit (swap_endian64 (swap_endian64 w)) n = bit w n" if "0 \<le> n" "n < 8"
    using that range64_0[of n "swap_endian64 w"] range64_7[of "56 + n" w] by simp
  have h1: "bit (swap_endian64 (swap_endian64 w)) n = bit w n" if "8 \<le> n" "n < 16"
    using that range64_1[of n "swap_endian64 w"] range64_6[of "40 + n" w] by simp
  have h2: "bit (swap_endian64 (swap_endian64 w)) n = bit w n" if "16 \<le> n" "n < 24"
    using that range64_2[of n "swap_endian64 w"] range64_5[of "24 + n" w] by simp
  have h3: "bit (swap_endian64 (swap_endian64 w)) n = bit w n" if "24 \<le> n" "n < 32"
    using that range64_3[of n "swap_endian64 w"] range64_4[of "8 + n" w] by simp
  have h4: "bit (swap_endian64 (swap_endian64 w)) n = bit w n" if "32 \<le> n" "n < 40"
    using that range64_4[of n "swap_endian64 w"] range64_3[of "n - 8" w] by simp
  have h5: "bit (swap_endian64 (swap_endian64 w)) n = bit w n" if "40 \<le> n" "n < 48"
    using that range64_5[of n "swap_endian64 w"] range64_2[of "n - 24" w] by simp
  have h6: "bit (swap_endian64 (swap_endian64 w)) n = bit w n" if "48 \<le> n" "n < 56"
    using that range64_6[of n "swap_endian64 w"] range64_1[of "n - 40" w] by simp
  have h7: "bit (swap_endian64 (swap_endian64 w)) n = bit w n" if "56 \<le> n" "n < 64"
    using that range64_7[of n "swap_endian64 w"] range64_0[of "n - 56" w] by simp
  show "bit (swap_endian64 (swap_endian64 w)) n = bit w n"
  proof (cases "n < 32")
    case True
    then show ?thesis using h0 h1 h2 h3 by (cases "n < 16"; cases "n < 8"; cases "n < 24") simp_all
  next
    case False
    then show ?thesis using n h4 h5 h6 h7 by (cases "n < 48"; cases "n < 40"; cases "n < 56") simp_all
  qed
qed

lemma nat_bytes8:
  assumes "x < (18446744073709551616 :: nat)"
  shows "x mod 256 + 256 * (x div 256 mod 256 + 256 * (x div 65536 mod 256 +
           256 * (x div 16777216 mod 256 + 256 * (x div 4294967296 mod 256 +
           256 * (x div 1099511627776 mod 256 + 256 * (x div 281474976710656 mod 256 +
           256 * (x div 72057594037927936 mod 256))))))) = x"
proof -
  have a: "x mod 65536 = 256 * (x div 256 mod 256) + x mod 256"
    using mod_mult2_eq[of x 256 256] by simp
  have b: "x mod 16777216 = 65536 * (x div 65536 mod 256) + x mod 65536"
    using mod_mult2_eq[of x 65536 256] by simp
  have c: "x mod 4294967296 = 16777216 * (x div 16777216 mod 256) + x mod 16777216"
    using mod_mult2_eq[of x 16777216 256] by simp
  have d: "x mod 1099511627776 = 4294967296 * (x div 4294967296 mod 256) + x mod 4294967296"
    using mod_mult2_eq[of x 4294967296 256] by simp
  have e: "x mod 281474976710656 = 1099511627776 * (x div 1099511627776 mod 256) + x mod 1099511627776"
    using mod_mult2_eq[of x 1099511627776 256] by simp
  have f: "x mod 72057594037927936 =
           281474976710656 * (x div 281474976710656 mod 256) + x mod 281474976710656"
    using mod_mult2_eq[of x 281474976710656 256] by simp
  have g: "x mod 18446744073709551616 =
           72057594037927936 * (x div 72057594037927936 mod 256) + x mod 72057594037927936"
    using mod_mult2_eq[of x 72057594037927936 256] by simp
  have "x mod 18446744073709551616 = x" using assms by simp
  with a b c d e f g show ?thesis by (simp add: distrib_left)
qed

lemma le_word64_bytes: "le_word64 (le_bytes64 w) = w"
proof -
  have x: "unat w < 18446744073709551616" using unsigned_less[of w] by simp
  have "le_word64 (le_bytes64 w) =
     word_of_nat (unat w mod 256 + 256 * (unat w div 256 mod 256 + 256 * (unat w div 65536 mod 256 +
           256 * (unat w div 16777216 mod 256 + 256 * (unat w div 4294967296 mod 256 +
           256 * (unat w div 1099511627776 mod 256 + 256 * (unat w div 281474976710656 mod 256 +
           256 * (unat w div 72057594037927936 mod 256))))))))"
    using word_of_byte_drop[of 8 w] word_of_byte_drop[of 16 w] word_of_byte_drop[of 24 w]
      word_of_byte_drop[of 32 w] word_of_byte_drop[of 40 w] word_of_byte_drop[of 48 w]
      word_of_byte_drop[of 56 w]
    by (simp add: le_word64_def le_bytes64_def word_of_byte_0)
  then show ?thesis unfolding nat_bytes8[OF x] by simp
qed

subsection \<open>The padding loop\<close>

lemma pad_loop_eq:
  "up4 n \<le> length a \<Longrightarrow>
   pad_loop a n = Some (take n a @ replicate (up4 n - n) NUL @ drop (up4 n) a, up4 n)"
proof (induction a n rule: pad_loop.induct)
  case (1 a n)
  show ?case
  proof (cases "n mod 4 = 0")
    case True
    then show ?thesis by (subst pad_loop.simps) (simp add: up4_id)
  next
    case False
    then have lt: "n < up4 n" and su: "up4 (Suc n) = up4 n" by (simp_all add: up4_gt up4_Suc)
    with "1.prems" have n: "n < length a" by simp
    then have p: "poke a n NUL = Some (a[n := NUL])" by (simp add: poke_def)
    have ih: "pad_loop (a[n := NUL]) (Suc n) =
        Some (take (Suc n) (a[n := NUL]) @ replicate (up4 n - Suc n) NUL @ drop (up4 n) (a[n := NUL]), up4 n)"
      using "1.IH"[OF False p] "1.prems" su by simp
    have t: "take (Suc n) (a[n := NUL]) = take n a @ [NUL]"
      using n by (simp add: take_Suc_conv_app_nth)
    have d: "drop (up4 n) (a[n := NUL]) = drop (up4 n) a" using lt by simp
    have r: "[NUL] @ replicate (up4 n - Suc n) NUL = replicate (up4 n - n) NUL"
      using lt by (metis Suc_diff_Suc append_Cons append_Nil replicate_Suc)
    show ?thesis
      using False p ih t d r by (subst pad_loop.simps) simp
  qed
qed

subsection \<open>The pattern matcher\<close>

lemma glob_star: "glob (CHR ''*'' # ps) s = (\<exists>k\<le>length s. glob ps (drop k s))"
  by (auto simp: list_ex_iff Bex_def less_Suc_eq_le simp del: upt_Suc)

lemma glob_Nil_iff: "glob p [] = (dropWhile (\<lambda>c. c = CHR ''*'') p = [])"
  by (induction p) auto

lemma glob_Nil_all: "p \<noteq> [] \<Longrightarrow> glob p [] \<Longrightarrow> glob p s"
proof (cases p)
  case Nil
  assume "p \<noteq> []"
  with Nil show ?thesis by simp
next
  case (Cons a q)
  assume "glob p []"
  with Cons have a: "a = CHR ''*''" and q: "glob q []"
    by (auto split: if_splits)
  have "glob q (drop (length s) s)" using q by simp
  then show ?thesis unfolding Cons a glob_star by blast
qed

lemma match_glob:
  "matchPattern p s = glob p s"
  "matchStar p s = (\<exists>k<length s. glob p (drop k s))"
proof (induction p s and p s rule: matchPattern_matchStar.induct)
  case (1 str)
  then show ?case by (auto simp: matchEnd_def)
next
  case (2 p ps)
  then show ?case using glob_Nil_iff[of "p # ps"] by (simp add: matchEnd_def)
next
  case (3 p ps c cs)
  show ?case
  proof (cases "p = CHR ''*''")
    case star: True
    show ?thesis
    proof (cases "ps = []")
      case True
      then show ?thesis unfolding star glob_star by auto
    next
      case False
      have "(\<exists>k<length (c # cs). glob ps (drop k (c # cs))) =
            (\<exists>k\<le>length (c # cs). glob ps (drop k (c # cs)))"
      proof
        assume "\<exists>k<length (c # cs). glob ps (drop k (c # cs))"
        then show "\<exists>k\<le>length (c # cs). glob ps (drop k (c # cs))" by (meson less_imp_le)
      next
        assume "\<exists>k\<le>length (c # cs). glob ps (drop k (c # cs))"
        then obtain k where k: "k \<le> length (c # cs)" "glob ps (drop k (c # cs))" by blast
        show "\<exists>k<length (c # cs). glob ps (drop k (c # cs))"
        proof (cases "k = length (c # cs)")
          case True
          with k have "glob ps []" by simp
          then have "glob ps (drop 0 (c # cs))" using glob_Nil_all[OF False] by simp
          then show ?thesis by (intro exI[of _ 0]) simp
        next
          case False
          with k show ?thesis by (intro exI[of _ k]) simp
        qed
      qed
      with 3(1)[OF star False] False show ?thesis unfolding star glob_star by simp
    qed
  next
    case False
    with 3(2) show ?thesis by auto
  qed
next
  case (4 pattern)
  then show ?case by simp
next
  case (5 pattern c cs)
  have "(\<exists>k<length (c # cs). glob pattern (drop k (c # cs))) =
        (glob pattern (c # cs) \<or> (\<exists>k<length cs. glob pattern (drop k cs)))"
    by (auto simp: less_Suc_eq_0_disj)
  with 5 show ?case by auto
qed

lemma glob_plain_length: "CHR ''*'' \<notin> set p \<Longrightarrow> glob p s \<Longrightarrow> length s = length p"
  by (induction p arbitrary: s) (auto split: list.splits)

text \<open>
  C7.  The matcher on the examples of the specification: \<open>/synth/*\<close> matches
  \<open>/synth/freq\<close> and \<open>/synth/\<close> but not \<open>/other/freq\<close>; \<open>/synth/?\<close> matches \<open>/synth/1\<close> but not
  \<open>/synth/12\<close>.  The empty pattern matches the empty input and nothing else.  In general the
  matcher computes whole-string glob matching (\<^const>\<open>glob\<close>): a match uses up the entire
  input, so a pattern without \<open>*\<close> only matches inputs of its own length.
\<close>

theorem matchPattern_spec:
  "matchPattern ''/synth/*'' ''/synth/freq'' \<and>
   matchPattern ''/synth/*'' ''/synth/'' \<and>
   \<not> matchPattern ''/synth/*'' ''/other/freq'' \<and>
   matchPattern ''/synth/?'' ''/synth/1'' \<and>
   \<not> matchPattern ''/synth/?'' ''/synth/12'' \<and>
   (\<forall>s. matchPattern [] s = (s = [])) \<and>
   (\<forall>p s. matchPattern p s = glob p s) \<and>
   (\<forall>p s. CHR ''*'' \<notin> set p \<longrightarrow> matchPattern p s \<longrightarrow> length s = length p)"
proof -
  have "\<forall>s. matchPattern [] s = (s = [])" by (simp add: matchEnd_def)
  moreover have "\<forall>p s. CHR ''*'' \<notin> set p \<longrightarrow> matchPattern p s \<longrightarrow> length s = length p"
    using glob_plain_length by (simp add: match_glob(1))
  moreover have "\<forall>p s. matchPattern p s = glob p s" by (simp add: match_glob(1))
  moreover have "matchPattern ''/synth/*'' ''/synth/freq''" by simp
  moreover have "matchPattern ''/synth/*'' ''/synth/''" by (simp add: matchEnd_def)
  moreover have "\<not> matchPattern ''/synth/*'' ''/other/freq''" by (simp add: matchEnd_def)
  moreover have "matchPattern ''/synth/?'' ''/synth/1''" by (simp add: matchEnd_def)
  moreover have "\<not> matchPattern ''/synth/?'' ''/synth/12''" by (simp add: matchEnd_def)
  ultimately show ?thesis by blast
qed

theorem matchPattern_spec_witness:
  "CHR ''*'' \<notin> set ''/synth/?'' \<and> matchPattern ''/synth/?'' ''/synth/1'' \<and>
   length ''/synth/1'' = length ''/synth/?''"
  using matchPattern_spec by simp

subsection \<open>setAddress\<close>

lemma setAddress_reject: "length a \<ge> MAX_ADDRESS_SIZE \<Longrightarrow> setAddress a m = Some (False, m)"
  by (simp add: setAddress_def)

lemma setAddress_accept:
  assumes len: "length a < MAX_ADDRESS_SIZE" and arr: "length (mAddress m) = MAX_ADDRESS_SIZE"
  shows "setAddress a m =
     Some (True, m\<lparr>mAddress := a @ replicate (up4 (length a + 1) - length a) NUL @
                                 drop (up4 (length a + 1)) (mAddress m),
                    mAddressSize := up4 (length a + 1)\<rparr>)"
proof -
  let ?n = "length a + 1"
  let ?b = "a @ [NUL] @ drop ?n (mAddress m)"
  have cp: "memcpy (mAddress m) 0 (a @ [NUL]) ?n = Some ?b"
    using len arr by (simp add: memcpy_def)
  have "up4 ?n \<le> up4 256" using len by (intro up4_mono) simp
  then have u: "up4 ?n \<le> 256" by (simp add: up4_def)
  have lb: "length ?b = 256" using len arr by simp
  have ge: "?n \<le> up4 ?n" by (rule up4_ge)
  have pl: "pad_loop ?b ?n = Some (take ?n ?b @ replicate (up4 ?n - ?n) NUL @ drop (up4 ?n) ?b, up4 ?n)"
    using u lb by (intro pad_loop_eq) simp
  have t: "take ?n ?b = a @ [NUL]" by simp
  have d: "drop (up4 ?n) ?b = drop (up4 ?n) (mAddress m)"
  proof -
    from ge obtain k where k: "up4 ?n = ?n + k" using le_Suc_ex by blast
    show ?thesis unfolding k by (simp add: add.commute)
  qed
  have r: "[NUL] @ replicate (up4 ?n - ?n) NUL = replicate (up4 ?n - length a) NUL"
    using ge by (metis Suc_diff_le Suc_eq_plus1 append_Cons append_Nil diff_Suc_Suc replicate_Suc)
  have "take ?n ?b @ replicate (up4 ?n - ?n) NUL @ drop (up4 ?n) ?b =
        a @ replicate (up4 ?n - length a) NUL @ drop (up4 ?n) (mAddress m)"
    unfolding t d using r by simp
  with pl have pl': "pad_loop ?b ?n =
      Some (a @ replicate (up4 ?n - length a) NUL @ drop (up4 ?n) (mAddress m), up4 ?n)"
    by simp
  show ?thesis
    using len cp pl' by (simp add: setAddress_def Let_def del: pad_loop.simps)
qed

text \<open>
  C8, amended.  \<^verbatim>\<open>setAddress\<close> returns \<^verbatim>\<open>false\<close>, leaving the builder as it is, exactly when
  the length of the string without its terminator is at least the address capacity, that is
  when the length with the terminator would exceed the capacity.  Otherwise it returns
  \<^verbatim>\<open>true\<close>, the address buffer begins with the string and its terminator followed by
  \<^verbatim>\<open>NUL\<close> padding up to the stored length, which is the least multiple of four not below
  the terminated length, and nothing else changes.
\<close>

theorem setAddress_spec:
  assumes "length (mAddress m) = MAX_ADDRESS_SIZE"
  shows "(length a \<ge> MAX_ADDRESS_SIZE \<longrightarrow> setAddress a m = Some (False, m)) \<and>
         (length a < MAX_ADDRESS_SIZE \<longrightarrow>
            (\<exists>m'. setAddress a m = Some (True, m') \<and>
                  mAddressSize m' = up4 (length a + 1) \<and>
                  mAddressSize m' mod 4 = 0 \<and>
                  mAddressSize m' \<le> MAX_ADDRESS_SIZE \<and>
                  length (mAddress m') = MAX_ADDRESS_SIZE \<and>
                  take (length a + 1) (mAddress m') = a @ [NUL] \<and>
                  take (mAddressSize m') (mAddress m') =
                    a @ replicate (mAddressSize m' - length a) NUL \<and>
                  mTypeTags m' = mTypeTags m \<and> mTypeTagCount m' = mTypeTagCount m \<and>
                  mArgBuffer m' = mArgBuffer m \<and> mArgBufferSize m' = mArgBufferSize m))"
proof (intro conjI impI)
  assume "length a \<ge> MAX_ADDRESS_SIZE"
  then show "setAddress a m = Some (False, m)" by (rule setAddress_reject)
next
  assume len: "length a < MAX_ADDRESS_SIZE"
  let ?n = "length a + 1"
  have "up4 ?n \<le> up4 256" using len by (intro up4_mono) simp
  then have u: "up4 ?n \<le> 256" by (simp add: up4_def)
  have ge: "?n \<le> up4 ?n" by (rule up4_ge)
  have r: "replicate (up4 ?n - length a) NUL = NUL # replicate (up4 ?n - ?n) NUL"
    using ge by (metis Suc_diff_le Suc_eq_plus1 diff_Suc_Suc replicate_Suc)
  show "\<exists>m'. setAddress a m = Some (True, m') \<and>
                  mAddressSize m' = up4 (length a + 1) \<and>
                  mAddressSize m' mod 4 = 0 \<and>
                  mAddressSize m' \<le> MAX_ADDRESS_SIZE \<and>
                  length (mAddress m') = MAX_ADDRESS_SIZE \<and>
                  take (length a + 1) (mAddress m') = a @ [NUL] \<and>
                  take (mAddressSize m') (mAddress m') =
                    a @ replicate (mAddressSize m' - length a) NUL \<and>
                  mTypeTags m' = mTypeTags m \<and> mTypeTagCount m' = mTypeTagCount m \<and>
                  mArgBuffer m' = mArgBuffer m \<and> mArgBufferSize m' = mArgBufferSize m"
    unfolding setAddress_accept[OF len assms]
    using u ge assms len by (simp add: up4_mod r)
qed

theorem setAddress_spec_witness:
  "length (mAddress msg_clear) = MAX_ADDRESS_SIZE \<and>
   setAddress (replicate 256 CHR ''a'') msg_clear = Some (False, msg_clear) \<and>
   (\<exists>m'. setAddress ''/a'' msg_clear = Some (True, m') \<and> mAddressSize m' = 4)"
proof -
  have h: "length (mAddress msg_clear) = MAX_ADDRESS_SIZE" by (simp add: msg_clear_def)
  from setAddress_spec[OF h, of "replicate 256 CHR ''a''"] setAddress_spec[OF h, of "''/a''"] h
  show ?thesis by (auto simp: up4_def)
qed

text \<open>
  C8 as stated fails for a string of 255 characters: with its terminator it has 256 bytes,
  which reaches the address capacity, and \<^verbatim>\<open>setAddress\<close> returns \<^verbatim>\<open>true\<close>.
\<close>

theorem setAddress_reach_counterexample:
  "length (replicate 255 CHR ''a'') + 1 = MAX_ADDRESS_SIZE \<and>
   map_option fst (setAddress (replicate 255 CHR ''a'') msg_clear) = Some True"
  by (simp add: setAddress_accept msg_clear_def)

subsection \<open>The view after a parse\<close>

lemma parse_args_fields:
  "parse_args buffer size' types pos v = Some (r, v') \<Longrightarrow>
   address v' = address v \<and> typeTags v' = typeTags v \<and>
   length (mArgs v) \<le> length (mArgs v') \<and>
   (length (mArgs v) \<le> MAX_ARGS \<longrightarrow> length (mArgs v') \<le> MAX_ARGS) \<and>
   (\<not> r \<longrightarrow> length (mArgs v') < MAX_ARGS)"
proof (induction buffer size' types pos v rule: parse_args.induct)
  case (1 buffer size' types pos v)
  from "1.prems" obtain t where t: "peek buffer size' types = Some t"
    by (subst (asm) parse_args.simps) (auto split: option.splits)
  show ?case
  proof (cases "t \<noteq> NUL \<and> length (mArgs v) < MAX_ARGS")
    case False
    with "1.prems" t show ?thesis
      by (subst (asm) parse_args.simps) (auto split: option.splits)
  next
    case True
    show ?thesis
    proof (cases "parse_arg buffer size' pos t")
      case None
      with "1.prems" t True show ?thesis
        by (subst (asm) parse_args.simps) (auto split: option.splits)
    next
      case (Some st)
      show ?thesis
      proof (cases st)
        case None
        with "1.prems" t True Some show ?thesis
          by (subst (asm) parse_args.simps) (auto split: option.splits)
      next
        case inner: (Some pa)
        obtain pos' arg where pa: "pa = (pos', arg)" by (cases pa)
        have rec: "parse_args buffer size' (Suc types) pos' (v\<lparr>mArgs := mArgs v @ [arg]\<rparr>) = Some (r, v')"
          using "1.prems" t True Some inner pa
          by (subst (asm) parse_args.simps) (simp split: option.splits)
        from "1.IH"[OF t True Some inner pa[symmetric] rec] True
        show ?thesis by auto
      qed
    qed
  qed
qed

lemma parse_tags_no_tags:
  "pos \<ge> size' \<or> (\<exists>c. peek buffer size' pos = Some c \<and> c \<noteq> CHR '','') \<Longrightarrow>
   parse_tags buffer size' pos v = Some (True, v\<lparr>typeTags := empty_literal\<rparr>)"
  by (auto simp: parse_tags_def)

lemma parse_tags_fault:
  "pos < size' \<Longrightarrow> peek buffer size' pos = None \<Longrightarrow> parse_tags buffer size' pos v = None"
  by (simp add: parse_tags_def)

lemma parse_tags_comma:
  "pos < size' \<Longrightarrow> peek buffer size' pos = Some CHR '','' \<Longrightarrow>
   parse_tags buffer size' pos v =
     (case scan_nul buffer size' pos of
             None \<Rightarrow> None
           | Some q \<Rightarrow>
               if q \<ge> size' then Some (False, v\<lparr>typeTags := in_buffer (pos + 1)\<rparr>)
               else parse_args buffer size' (pos + 1) (align4 (q + 1))
                      (v\<lparr>typeTags := in_buffer (pos + 1)\<rparr>))"
  by (simp add: parse_tags_def)

lemma parse_short: "size' < 4 \<Longrightarrow> parse buffer size' = Some (False, view_clear)"
  by (simp add: parse_def)

lemma parse_fault: "\<not> size' < 4 \<Longrightarrow> peek buffer size' 0 = None \<Longrightarrow> parse buffer size' = None"
  by (simp add: parse_def)

lemma parse_bad_start:
  "\<not> size' < 4 \<Longrightarrow> peek buffer size' 0 = Some c \<Longrightarrow> c \<noteq> CHR ''/'' \<Longrightarrow>
   parse buffer size' = Some (False, view_clear)"
  by (simp add: parse_def)

lemma parse_slash:
  "\<not> size' < 4 \<Longrightarrow> peek buffer size' 0 = Some CHR ''/'' \<Longrightarrow>
   parse buffer size' =
     (case scan_nul buffer size' 0 of
        None \<Rightarrow> None
      | Some p \<Rightarrow>
          if p \<ge> size' then Some (False, view_clear\<lparr>address := in_buffer 0\<rparr>)
          else parse_tags buffer size' (align4 (p + 1)) (view_clear\<lparr>address := in_buffer 0\<rparr>))"
  by (simp add: parse_def)

text \<open>Unfolding the parser on a concrete buffer.\<close>

lemmas eval_simps = parse_def parse_tags_def peek_def peeks_def view_clear_def scan_nul.simps
  parse_args.simps parse_arg_def align4_def sz_def Let_def

lemma be_five: "swap_endian32 (le_word32 [NUL, NUL, NUL, CHR 0x05]) = 5"
  by (simp add: le_word32_def word_of_byte_def swap_endian32_def)

subsection \<open>The argument loop\<close>

lemma parse_args_step:
  "peek buffer size' types = Some t \<Longrightarrow> t \<noteq> NUL \<Longrightarrow> length (mArgs v) < MAX_ARGS \<Longrightarrow>
   parse_arg buffer size' pos t = Some (Some (pos', arg)) \<Longrightarrow>
   parse_args buffer size' types pos v =
     parse_args buffer size' (Suc types) pos' (v\<lparr>mArgs := mArgs v @ [arg]\<rparr>)"
  by (subst parse_args.simps) simp

lemma parse_args_fail:
  "peek buffer size' types = Some t \<Longrightarrow> t \<noteq> NUL \<Longrightarrow> length (mArgs v) < MAX_ARGS \<Longrightarrow>
   parse_arg buffer size' pos t = Some None \<Longrightarrow>
   parse_args buffer size' types pos v = Some (False, v)"
  by (subst parse_args.simps) simp

lemma parse_args_stop:
  "peek buffer size' types = Some t \<Longrightarrow> t = NUL \<or> length (mArgs v) \<ge> MAX_ARGS \<Longrightarrow>
   parse_args buffer size' types pos v = Some (True, v)"
  by (subst parse_args.simps) auto

lemma parse_arg_unknown:
  "t \<notin> set ''ifsSbhdtmcrTFNI'' \<Longrightarrow>
   parse_arg buffer size' pos t =
     Some (Some (pos, \<lparr>type = t, val = Unset, sptr = None, blobData = None, blobSize = None\<rparr>))"
  by (simp add: parse_arg_def)

text \<open>
  C9.  For a type tag outside the alphabet \<open>i f s S b h d t m c r T F N I\<close> the \<^verbatim>\<open>switch\<close>
  leaves the position where it is and fills a slot that carries the tag and no value, no
  string and no blob; the loop does not fail, counts the slot and goes on with the next
  tag at the unchanged position.
\<close>

theorem unknown_tag:
  assumes "t \<notin> set ''ifsSbhdtmcrTFNI''"
  shows "parse_arg buffer size' pos t =
           Some (Some (pos, \<lparr>type = t, val = Unset, sptr = None, blobData = None, blobSize = None\<rparr>)) \<and>
         (peek buffer size' types = Some t \<and> t \<noteq> NUL \<and> length (mArgs v) < MAX_ARGS \<longrightarrow>
          parse_args buffer size' types pos v =
            parse_args buffer size' (Suc types) pos
              (v\<lparr>mArgs := mArgs v @
                 [\<lparr>type = t, val = Unset, sptr = None, blobData = None, blobSize = None\<rparr>]\<rparr>))"
  using parse_arg_unknown[OF assms] parse_args_step by blast

theorem unknown_tag_witness:
  "CHR ''x'' \<notin> set ''ifsSbhdtmcrTFNI'' \<and>
   parse (''/a'' @ [NUL, NUL] @ '',xi'' @ [NUL] @ [NUL, NUL, NUL, CHR 0x05]) 12 =
     Some (True, \<lparr>address = in_buffer 0, typeTags = in_buffer 5,
       mArgs = [\<lparr>type = CHR ''x'', val = Unset, sptr = None, blobData = None, blobSize = None\<rparr>,
                \<lparr>type = CHR ''i'', val = Int32 5, sptr = None, blobData = None, blobSize = None\<rparr>]\<rparr>)"
proof -
  let ?b = "''/a'' @ [NUL, NUL] @ '',xi'' @ [NUL] @ [NUL, NUL, NUL, CHR 0x05]"
  let ?v = "\<lparr>address = in_buffer 0, typeTags = in_buffer 5, mArgs = []\<rparr>"
  have x: "CHR ''x'' \<notin> set ''ifsSbhdtmcrTFNI''" by simp
  have "parse_args ?b 12 5 8 ?v =
        parse_args ?b 12 (Suc 5) 8 (?v\<lparr>mArgs := mArgs ?v @
          [\<lparr>type = CHR ''x'', val = Unset, sptr = None, blobData = None, blobSize = None\<rparr>]\<rparr>)"
    using unknown_tag[OF x, where buffer="?b" and size'=12 and types=5 and v="?v" and pos=8] by (simp add: peek_def)
  then show ?thesis
    by (simp add: parse_def parse_tags_def peek_def peeks_def view_clear_def scan_nul.simps
          align4_def sz_def be_five parse_arg_def parse_args.simps[of _ _ "Suc 5"] parse_args.simps[of _ _ "Suc 6"]
          parse_args.simps[of _ _ 6] parse_args.simps[of _ _ 7])
qed

subsection \<open>The append operations\<close>

lemma extends_refl: "msg_wf m \<Longrightarrow> extends m m [] []"
  by (simp add: extends_def)

lemma extends_trans:
  "extends m m1 t1 b1 \<Longrightarrow> extends m1 m2 t2 b2 \<Longrightarrow> extends m m2 (t1 @ t2) (b1 @ b2)"
  by (simp add: extends_def)

lemma put_tag_ext:
  assumes wf: "msg_wf m" and n: "mTypeTagCount m < MAX_TYPE_TAG_SIZE - 1"
  shows "\<exists>m1. put_tag c m = Some m1 \<and> extends m m1 [c] []"
proof -
  let ?n = "mTypeTagCount m"
  let ?m1 = "m\<lparr>mTypeTags := (mTypeTags m)[?n := c], mTypeTagCount := ?n + 1\<rparr>"
  have len: "length (mTypeTags m) = 64" using wf by (simp add: msg_wf_def)
  have p: "put_tag c m = Some ?m1" using n len by (simp add: put_tag_def poke_def)
  have t: "take (?n + 1) ((mTypeTags m)[?n := c]) = take ?n (mTypeTags m) @ [c]"
    using n len by (simp add: take_Suc_conv_app_nth)
  have "extends m ?m1 [c] []"
    using wf n t by (simp add: extends_def msg_wf_def live_tags_def live_args_def)
  with p show ?thesis by blast
qed

lemma put_bytes_ext:
  assumes wf: "msg_wf m" and r: "put_bytes src n m = Some m1"
  shows "extends m m1 [] (take n src) \<and> n \<le> length src \<and> mArgBufferSize m + n \<le> MAX_ARG_BUFFER_SIZE"
proof -
  let ?k = "mArgBufferSize m"
  let ?b = "mArgBuffer m"
  have len: "length ?b = 768" and k: "?k \<le> 768" using wf by (simp_all add: msg_wf_def)
  have fit: "?k + n \<le> length ?b \<and> n \<le> length src"
    using r by (cases "?k + n \<le> length ?b \<and> n \<le> length src") (simp_all add: put_bytes_def memcpy_def)
  then have kn: "?k + n \<le> 768" and ns: "n \<le> length src" using len by simp_all
  then have s: "sz (?k + n) = ?k + n" by (simp add: sz_def)
  have m1: "m1 = m\<lparr>mArgBuffer := take ?k ?b @ take n src @ drop (?k + n) ?b, mArgBufferSize := ?k + n\<rparr>"
    using r fit s by (simp add: put_bytes_def memcpy_def)
  have t: "take (?k + n) (take ?k ?b @ take n src @ drop (?k + n) ?b) = take ?k ?b @ take n src"
    using kn ns len by simp
  have "extends m m1 [] (take n src)"
    unfolding m1 using wf kn ns len t
    by (simp add: extends_def msg_wf_def live_tags_def live_args_def)
  with kn ns show ?thesis by simp
qed

lemma put_bytes_ok:
  assumes wf: "msg_wf m" and "n \<le> length src" "mArgBufferSize m + n \<le> MAX_ARG_BUFFER_SIZE"
  shows "\<exists>m1. put_bytes src n m = Some m1"
  using assms by (simp add: put_bytes_def memcpy_def msg_wf_def)

lemma put_byte_ext:
  assumes wf: "msg_wf m" and r: "put_byte c m = Some m1"
  shows "extends m m1 [] [c]"
proof -
  let ?k = "mArgBufferSize m"
  let ?b = "mArgBuffer m"
  have len: "length ?b = 768" using wf by (simp add: msg_wf_def)
  have fit: "?k < length ?b"
    using r by (cases "?k < length ?b") (simp_all add: put_byte_def poke_def)
  have m1: "m1 = m\<lparr>mArgBuffer := ?b[?k := c], mArgBufferSize := ?k + 1\<rparr>"
    using r fit by (simp add: put_byte_def poke_def)
  have t: "take (?k + 1) (?b[?k := c]) = take ?k ?b @ [c]"
    using fit by (simp add: take_Suc_conv_app_nth)
  show ?thesis
    unfolding m1 using wf fit len t
    by (simp add: extends_def msg_wf_def live_tags_def live_args_def)
qed

lemma put_byte_ok:
  "msg_wf m \<Longrightarrow> mArgBufferSize m < MAX_ARG_BUFFER_SIZE \<Longrightarrow> \<exists>m1. put_byte c m = Some m1"
  by (simp add: put_byte_def poke_def msg_wf_def)

lemma pad_args_ext:
  assumes wf: "msg_wf m"
  shows "\<exists>m1. pad_args m = Some m1 \<and>
           extends m m1 [] (replicate (up4 (mArgBufferSize m) - mArgBufferSize m) NUL)"
proof -
  let ?k = "mArgBufferSize m"
  let ?b = "mArgBuffer m"
  have len: "length ?b = 768" and k: "?k \<le> 768" using wf by (simp_all add: msg_wf_def)
  have "up4 ?k \<le> up4 768" using k by (rule up4_mono)
  then have u: "up4 ?k \<le> 768" by (simp add: up4_def)
  have ge: "?k \<le> up4 ?k" by (rule up4_ge)
  let ?m1 = "m\<lparr>mArgBuffer := take ?k ?b @ replicate (up4 ?k - ?k) NUL @ drop (up4 ?k) ?b,
                 mArgBufferSize := up4 ?k\<rparr>"
  have p: "pad_args m = Some ?m1"
    using pad_loop_eq[of ?k ?b] u len by (simp add: pad_args_def)
  have t: "take (up4 ?k) (take ?k ?b @ replicate (up4 ?k - ?k) NUL @ drop (up4 ?k) ?b) =
           take ?k ?b @ replicate (up4 ?k - ?k) NUL"
    using ge k len by simp
  have "extends m ?m1 [] (replicate (up4 ?k - ?k) NUL)"
    using wf u ge len t by (simp add: extends_def msg_wf_def live_tags_def live_args_def)
  with p show ?thesis by blast
qed

lemma op_cases:
  "(if \<not> canAddArg m k then Some (False, m) else appended r) = Some (True, m') \<Longrightarrow>
   mTypeTagCount m < MAX_TYPE_TAG_SIZE - 1 \<and> r = Some m'"
  by (auto simp: canAddArg_def appended_def split: if_splits)

lemma extends_wf: "extends m m' ts bs \<Longrightarrow> msg_wf m'"
  by (simp add: extends_def)

lemma tag_bytes_ext:
  assumes wf: "msg_wf m" and n: "mTypeTagCount m < MAX_TYPE_TAG_SIZE - 1"
    and r: "Option.bind (put_tag c m) (put_bytes bs k) = Some m'"
  shows "extends m m' [c] (take k bs) \<and> k \<le> length bs"
proof -
  from put_tag_ext[OF wf n] obtain m1 where m1: "put_tag c m = Some m1" "extends m m1 [c] []"
    by blast
  with r have "put_bytes bs k m1 = Some m'" by simp
  from put_bytes_ext[OF extends_wf[OF m1(2)] this] extends_trans[OF m1(2)]
  show ?thesis by fastforce
qed

lemma replicate_pad: "n \<le> k \<Longrightarrow> [NUL] @ replicate (k - Suc n) NUL = replicate (k - n) NUL \<or> k = n"
  by (cases "k = n") (simp_all add: Suc_diff_Suc flip: replicate_Suc)

lemma string_payload:
  "(v @ [NUL]) @ replicate (up4 (length v + 1) - (length v + 1)) NUL =
   v @ replicate (up4 (length v + 1) - length v) NUL"
proof -
  have "length v + 1 \<le> up4 (length v + 1)" by (rule up4_ge)
  then have "up4 (length v + 1) - length v = Suc (up4 (length v + 1) - (length v + 1))" by simp
  then show ?thesis by (simp add: replicate_append_same)
qed

lemma addString_ext:
  assumes wf: "msg_wf m" and al: "mArgBufferSize m mod 4 = 0"
    and r: "addString v m = Some (True, m')"
  shows "extends m m' [CHR ''s''] (payload (AddString v))"
proof -
  from r have n: "mTypeTagCount m < MAX_TYPE_TAG_SIZE - 1"
    and b: "Option.bind (Option.bind (put_tag CHR ''s'' m)
             (put_bytes (v @ [NUL]) (length v + 1))) pad_args = Some m'"
    using op_cases[of m "align4 (length v + 1)" _ m'] by (simp_all add: addString_def Let_def)
  from b obtain m2 where m2: "Option.bind (put_tag CHR ''s'' m)
             (put_bytes (v @ [NUL]) (length v + 1)) = Some m2" and p: "pad_args m2 = Some m'"
    by (auto simp: bind_eq_Some_conv)
  from tag_bytes_ext[OF wf n m2] have e2: "extends m m2 [CHR ''s''] (v @ [NUL])" by simp
  then have k2: "mArgBufferSize m2 = mArgBufferSize m + (length v + 1)" by (simp add: extends_def)
  from pad_args_ext[OF extends_wf[OF e2]] p
  have e3: "extends m2 m' [] (replicate (up4 (mArgBufferSize m2) - mArgBufferSize m2) NUL)" by auto
  have "up4 (mArgBufferSize m2) - mArgBufferSize m2 = up4 (length v + 1) - (length v + 1)"
    unfolding k2 up4_add[OF al] by simp
  then have pl: "(v @ [NUL]) @ replicate (up4 (mArgBufferSize m2) - mArgBufferSize m2) NUL =
      payload (AddString v)"
    by (simp only: string_payload payload.simps)
  have "extends m m' ([CHR ''s''] @ []) ((v @ [NUL]) @
      replicate (up4 (mArgBufferSize m2) - mArgBufferSize m2) NUL)"
    by (rule extends_trans[OF e2 e3])
  then show ?thesis unfolding pl by simp
qed

lemma addBlob_ext:
  assumes wf: "msg_wf m" and al: "mArgBufferSize m mod 4 = 0"
    and r: "addBlob d n m = Some (True, m')"
  shows "extends m m' [CHR ''b''] (payload (AddBlob d n)) \<and> unat n \<le> length d"
proof -
  from r have c: "mTypeTagCount m < MAX_TYPE_TAG_SIZE - 1"
    and b: "Option.bind (Option.bind (Option.bind (put_tag CHR ''b'' m)
             (put_bytes (le_bytes32 (swap_endian32 n)) 4))
             (put_bytes d (unat n))) pad_args = Some m'"
    using op_cases[of m "sz (4 + align4 (unat n))" _ m'] by (simp_all add: addBlob_def Let_def)
  from b obtain m3 where m3: "Option.bind (Option.bind (put_tag CHR ''b'' m)
             (put_bytes (le_bytes32 (swap_endian32 n)) 4))
             (put_bytes d (unat n)) = Some m3" and p: "pad_args m3 = Some m'"
    by (auto simp: bind_eq_Some_conv)
  from m3 obtain m2 where m2: "Option.bind (put_tag CHR ''b'' m)
             (put_bytes (le_bytes32 (swap_endian32 n)) 4) = Some m2"
    and q: "put_bytes d (unat n) m2 = Some m3"
    by (auto simp: bind_eq_Some_conv)
  from tag_bytes_ext[OF wf c m2] have e2: "extends m m2 [CHR ''b''] (be32 n)"
    by (simp add: be32_def le_bytes32_def)
  from put_bytes_ext[OF extends_wf[OF e2] q]
  have e3: "extends m2 m3 [] (take (unat n) d)" and dn: "unat n \<le> length d" by simp_all
  from extends_trans[OF e2 e3] have e23: "extends m m3 [CHR ''b''] (be32 n @ take (unat n) d)" by simp
  then have k3: "mArgBufferSize m3 = mArgBufferSize m + (4 + unat n)"
    using dn by (simp add: extends_def be32_def le_bytes32_def)
  from pad_args_ext[OF extends_wf[OF e23]] p
  have e4: "extends m3 m' [] (replicate (up4 (mArgBufferSize m3) - mArgBufferSize m3) NUL)" by auto
  have "up4 (mArgBufferSize m3) = mArgBufferSize m + (4 + up4 (unat n))"
    unfolding k3 up4_add[OF al] by (simp add: up4_add[of 4])
  then have "up4 (mArgBufferSize m3) - mArgBufferSize m3 = up4 (unat n) - unat n"
    unfolding k3 by simp
  with extends_trans[OF e23 e4] dn show ?thesis by simp
qed

lemma add_four_ext:
  assumes wf: "msg_wf m" and r: "add_four c b0 b1 b2 b3 m = Some (True, m')"
  shows "extends m m' [c] [b0, b1, b2, b3]"
proof -
  from r have n: "mTypeTagCount m < MAX_TYPE_TAG_SIZE - 1"
    and b: "Option.bind (Option.bind (Option.bind (Option.bind (put_tag c m)
             (put_byte b0)) (put_byte b1)) (put_byte b2)) (put_byte b3) = Some m'"
    using op_cases[of m 4 _ m'] by (simp_all add: add_four_def)
  from put_tag_ext[OF wf n] obtain m0 where m0: "put_tag c m = Some m0" "extends m m0 [c] []"
    by blast
  from b m0 obtain m1 m2 m3 where s: "put_byte b0 m0 = Some m1" "put_byte b1 m1 = Some m2"
    "put_byte b2 m2 = Some m3" "put_byte b3 m3 = Some m'"
    by (auto simp: bind_eq_Some_conv)
  have e1: "extends m m1 [c] [b0]"
    using extends_trans[OF m0(2) put_byte_ext[OF extends_wf[OF m0(2)] s(1)]] by simp
  have e2: "extends m m2 [c] [b0, b1]"
    using extends_trans[OF e1 put_byte_ext[OF extends_wf[OF e1] s(2)]] by simp
  have e3: "extends m m3 [c] [b0, b1, b2]"
    using extends_trans[OF e2 put_byte_ext[OF extends_wf[OF e2] s(3)]] by simp
  show ?thesis
    using extends_trans[OF e3 put_byte_ext[OF extends_wf[OF e3] s(4)]] by simp
qed

lemma add_tag_only_ext:
  assumes wf: "msg_wf m" and r: "add_tag_only c m = Some (True, m')"
  shows "extends m m' [c] []"
proof -
  from r have n: "mTypeTagCount m < MAX_TYPE_TAG_SIZE - 1" and b: "put_tag c m = Some m'"
    by (auto simp: add_tag_only_def appended_def split: if_splits)
  from put_tag_ext[OF wf n, of c] b show ?thesis by auto
qed

lemma fixed_ext:
  assumes wf: "msg_wf m"
    and r: "(if \<not> canAddArg m k then Some (False, m)
             else appended (Option.bind (put_tag c m) (put_bytes bs k))) = Some (True, m')"
    and k: "length bs = k"
  shows "extends m m' [c] bs"
proof -
  from op_cases[OF r] have n: "mTypeTagCount m < MAX_TYPE_TAG_SIZE - 1"
    and b: "Option.bind (put_tag c m) (put_bytes bs k) = Some m'" by simp_all
  from tag_bytes_ext[OF wf n b] k show ?thesis by simp
qed

lemma call_ext:
  assumes wf: "msg_wf m" and al: "mArgBufferSize m mod 4 = 0"
    and r: "call c m = Some (True, m')"
  shows "extends m m' [tag_of c] (payload c)"
proof (cases c)
  case (AddInt v)
  from r[unfolded AddInt call.simps addInt_def]
  have "extends m m' [CHR ''i''] (le_bytes32 (swap_endian32 v))"
    by (rule fixed_ext[OF wf]) (simp add: le_bytes32_def)
  then show ?thesis by (simp add: AddInt be32_def)
next
  case (AddFloat v)
  from r[unfolded AddFloat call.simps addFloat_def]
  have "extends m m' [CHR ''f''] (le_bytes32 (swap_endian32 v))"
    by (rule fixed_ext[OF wf]) (simp add: le_bytes32_def)
  then show ?thesis by (simp add: AddFloat be32_def)
next
  case (AddString v)
  with r addString_ext[OF wf al] show ?thesis by simp
next
  case (AddBlob d n)
  with r addBlob_ext[OF wf al] show ?thesis by simp
next
  case (AddInt64 v)
  from r[unfolded AddInt64 call.simps addInt64_def]
  have "extends m m' [CHR ''h''] (le_bytes64 (swap_endian64 v))"
    by (rule fixed_ext[OF wf]) (simp add: le_bytes64_def)
  then show ?thesis by (simp add: AddInt64 be64_def)
next
  case (AddDouble v)
  from r[unfolded AddDouble call.simps addDouble_def]
  have "extends m m' [CHR ''d''] (le_bytes64 (swap_endian64 v))"
    by (rule fixed_ext[OF wf]) (simp add: le_bytes64_def)
  then show ?thesis by (simp add: AddDouble be64_def)
next
  case (AddTimetag tt)
  from r[unfolded AddTimetag call.simps addTimetag_def]
  have "extends m m' [CHR ''t''] (le_bytes32 (swap_endian32 (seconds tt)) @
          le_bytes32 (swap_endian32 (fractions tt)))"
    by (rule fixed_ext[OF wf]) (simp add: le_bytes32_def)
  then show ?thesis by (simp add: AddTimetag be32_def)
next
  case AddTrue
  with r add_tag_only_ext[OF wf] show ?thesis by (simp add: addTrue_def)
next
  case AddFalse
  with r add_tag_only_ext[OF wf] show ?thesis by (simp add: addFalse_def)
next
  case AddNil
  with r add_tag_only_ext[OF wf] show ?thesis by (simp add: addNil_def)
next
  case AddInfinitum
  with r add_tag_only_ext[OF wf] show ?thesis by (simp add: addInfinitum_def)
next
  case (AddMidi p st d1 d2)
  with r add_four_ext[OF wf] show ?thesis by (simp add: addMidi_def)
next
  case (AddChar ch)
  with r add_four_ext[OF wf] show ?thesis by (simp add: addChar_def)
next
  case (AddColor r' g b a)
  with r add_four_ext[OF wf] show ?thesis by (simp add: addColor_def)
qed

lemma call_blob_fits:
  "msg_wf m \<Longrightarrow> mArgBufferSize m mod 4 = 0 \<Longrightarrow> call (AddBlob d n) m = Some (True, m') \<Longrightarrow>
   unat n \<le> length d"
  using addBlob_ext by simp

subsection \<open>Rejected appends\<close>

lemma nonneg_unat:
  assumes "0 \<le> sint (n :: 32 word)"
  shows "unat n < 2147483648"
proof -
  from assms have nb: "\<not> bit n 31" using bit_last_iff[of n] by simp
  have "take_bit 31 n = n"
  proof (rule bit_word_eqI)
    fix k assume "k < LENGTH(32)"
    then show "bit (take_bit 31 n) k = bit n k"
      using nb by (cases "k = 31") (auto simp: bit_take_bit_iff)
  qed
  then have "unat n = take_bit 31 (unat n)" by (metis unsigned_take_bit_eq)
  also have "\<dots> < 2 ^ 31" by (rule take_bit_nat_less_exp)
  finally show ?thesis by simp
qed

lemma length_payload_string: "length (payload (AddString v)) = up4 (length v + 1)"
proof -
  have "length v + 1 \<le> up4 (length v + 1)" by (rule up4_ge)
  then show ?thesis by simp
qed

lemma canAddArg_full:
  "msg_wf m \<Longrightarrow> k < 4294966000 \<Longrightarrow>
   MAX_TYPE_TAG_SIZE - 1 \<le> mTypeTagCount m \<or> MAX_ARG_BUFFER_SIZE < mArgBufferSize m + k \<Longrightarrow>
   \<not> canAddArg m k"
  by (auto simp: canAddArg_def msg_wf_def sz_def)

lemma add_four_rejected:
  "msg_wf m \<Longrightarrow>
   MAX_TYPE_TAG_SIZE - 1 \<le> mTypeTagCount m \<or> MAX_ARG_BUFFER_SIZE < mArgBufferSize m + 4 \<Longrightarrow>
   add_four c b0 b1 b2 b3 m = Some (False, m)"
  using canAddArg_full[of m 4] by (simp add: add_four_def)

lemma add_tag_only_rejected:
  "msg_wf m \<Longrightarrow>
   MAX_TYPE_TAG_SIZE - 1 \<le> mTypeTagCount m \<or> MAX_ARG_BUFFER_SIZE < mArgBufferSize m + 0 \<Longrightarrow>
   add_tag_only c m = Some (False, m)"
  by (auto simp: add_tag_only_def msg_wf_def)

text \<open>
  For every append operation on a builder that satisfies the class invariant, with a string
  shorter than \<open>2 ^ 31\<close> or a blob whose size is not negative and not beyond the memory handed
  over: when the tag count is at its limit or the wire form of the argument does not fit
  into the argument buffer, the operation returns \<^verbatim>\<open>false\<close> and leaves the builder as it is.
\<close>

lemma call_rejected:
  assumes wf: "msg_wf m"
    and sane: "case c of AddString v \<Rightarrow> length v < 2 ^ 31
                       | AddBlob d n \<Rightarrow> 0 \<le> sint n \<and> unat n \<le> length d | _ \<Rightarrow> True"
    and full: "MAX_TYPE_TAG_SIZE - 1 \<le> mTypeTagCount m \<or>
               MAX_ARG_BUFFER_SIZE < mArgBufferSize m + length (payload c)"
  shows "call c m = Some (False, m)"
proof (cases c)
  case (AddInt v)
  with full canAddArg_full[OF wf, of 4] show ?thesis
    by (simp add: addInt_def be32_def le_bytes32_def)
next
  case (AddFloat v)
  with full canAddArg_full[OF wf, of 4] show ?thesis
    by (simp add: addFloat_def be32_def le_bytes32_def)
next
  case (AddString v)
  with sane have l: "length v < 2147483648" by simp
  then have a: "align4 (length v + 1) = up4 (length v + 1)" by (intro align4_up4) simp
  have "up4 (length v + 1) < length v + 1 + 4" by (rule up4_lt)
  with l have b: "up4 (length v + 1) < 4294966000" by simp
  from full AddString have "MAX_TYPE_TAG_SIZE - 1 \<le> mTypeTagCount m \<or>
      MAX_ARG_BUFFER_SIZE < mArgBufferSize m + up4 (length v + 1)"
    unfolding length_payload_string[symmetric] by simp
  from canAddArg_full[OF wf b this] AddString a show ?thesis
    by (simp add: addString_def Let_def)
next
  case (AddBlob d n)
  with sane have s: "0 \<le> sint n" and f: "unat n \<le> length d" by simp_all
  have l: "unat n < 2147483648" using s by (rule nonneg_unat)
  then have a: "align4 (unat n) = up4 (unat n)" by (intro align4_up4) simp
  have u: "up4 (unat n) < unat n + 4" by (rule up4_lt)
  with l have z: "sz (4 + up4 (unat n)) = 4 + up4 (unat n)" by (intro sz_id) simp
  have ge: "unat n \<le> up4 (unat n)" by (rule up4_ge)
  have "length (payload (AddBlob d n)) = 4 + up4 (unat n)"
    using f ge by (simp add: be32_def le_bytes32_def)
  with full AddBlob have "MAX_TYPE_TAG_SIZE - 1 \<le> mTypeTagCount m \<or>
      MAX_ARG_BUFFER_SIZE < mArgBufferSize m + (4 + up4 (unat n))" by simp
  from canAddArg_full[OF wf _ this] u l AddBlob a z show ?thesis
    by (simp add: addBlob_def Let_def)
next
  case (AddInt64 v)
  with full canAddArg_full[OF wf, of 8] show ?thesis
    by (simp add: addInt64_def be64_def le_bytes64_def)
next
  case (AddDouble v)
  with full canAddArg_full[OF wf, of 8] show ?thesis
    by (simp add: addDouble_def be64_def le_bytes64_def)
next
  case (AddTimetag tt)
  with full canAddArg_full[OF wf, of 8] show ?thesis
    by (simp add: addTimetag_def be32_def le_bytes32_def)
next
  case AddTrue
  with full add_tag_only_rejected[OF wf] show ?thesis by (simp add: addTrue_def)
next
  case AddFalse
  with full add_tag_only_rejected[OF wf] show ?thesis by (simp add: addFalse_def)
next
  case AddNil
  with full add_tag_only_rejected[OF wf] show ?thesis by (simp add: addNil_def)
next
  case AddInfinitum
  with full add_tag_only_rejected[OF wf] show ?thesis by (simp add: addInfinitum_def)
next
  case (AddMidi p st d1 d2)
  with full add_four_rejected[OF wf] show ?thesis by (simp add: addMidi_def)
next
  case (AddChar ch)
  with full add_four_rejected[OF wf] show ?thesis by (simp add: addChar_def)
next
  case (AddColor r g b a)
  with full add_four_rejected[OF wf] show ?thesis by (simp add: addColor_def)
qed

lemma unat_minus_one32: "unat (- 1 :: 32 word) = 4294967295"
  by (simp add: unsigned_minus_1_eq_mask mask_eq_exp_minus_1)

lemma bind_None_right: "(\<And>x. g x = None) \<Longrightarrow> Option.bind f g = None"
  by (cases f) simp_all

lemma put_bytes_short: "length src < n \<Longrightarrow> put_bytes src n m = None"
  by (simp add: put_bytes_def memcpy_def)

text \<open>
  C6 fails for \<^verbatim>\<open>addBlob\<close> with a negative size.  For the size \<open>-1\<close> on a fresh builder the
  padded length \<^verbatim>\<open>(static_cast<size_t>(size) + 3) & ~3\<close> wraps around to \<open>0\<close>, so the capacity check
  is made for four bytes and passes; the operation does not return \<^verbatim>\<open>false\<close> but goes on to
  copy \<open>4294967295\<close> bytes, far beyond the argument buffer and beyond the caller's data.
\<close>

theorem addBlob_negative_size:
  "canAddArg msg_clear (sz (4 + align4 (unat (- 1 :: 32 word)))) \<and>
   addBlob ''abc'' (- 1) msg_clear = None \<and>
   addBlob ''abc'' (- 1) msg_clear \<noteq> Some (False, msg_clear)"
proof -
  have c: "canAddArg msg_clear (sz (4 + align4 (unat (- 1 :: 32 word))))"
    by (simp add: unat_minus_one32 canAddArg_def msg_clear_def align4_def sz_def)
  have "Option.bind (Option.bind (put_tag CHR ''b'' msg_clear)
          (put_bytes (le_bytes32 (swap_endian32 (- 1))) 4))
          (put_bytes ''abc'' (unat (- 1 :: 32 word))) = None"
    by (rule bind_None_right) (simp add: put_bytes_short unat_minus_one32)
  then have "addBlob ''abc'' (- 1) msg_clear = None"
    using c by (simp add: addBlob_def Let_def appended_def)
  with c show ?thesis by simp
qed

subsection \<open>What a builder holds and what it serializes\<close>

lemma length_pad0: "length (pad0 xs) = up4 (length xs)"
  using up4_ge[of "length xs"] by (simp add: pad0_def)

lemma pad0_app: "length ys mod 4 = 0 \<Longrightarrow> pad0 (ys @ xs) = ys @ pad0 xs"
  by (simp add: pad0_def up4_add)

lemma pad0_string: "pad0 (v @ [NUL]) = v @ replicate (up4 (length v + 1) - length v) NUL"
  using string_payload[of v] by (simp add: pad0_def)

lemma pad_out_eq: "pad_out xs = pad0 xs"
proof (induction xs rule: pad_out.induct)
  case (1 out)
  show ?case
  proof (cases "length out mod 4 = 0")
    case True
    then show ?thesis by (subst pad_out.simps) (simp add: pad0_def up4_id)
  next
    case False
    then have lt: "length out < up4 (length out)" and su: "up4 (Suc (length out)) = up4 (length out)"
      by (simp_all add: up4_gt up4_Suc)
    have "pad_out out = pad0 (out @ [NUL])"
      using False "1.IH" by (subst pad_out.simps) simp
    also have "\<dots> = out @ [NUL] @ replicate (up4 (length out) - Suc (length out)) NUL"
      using su by (simp add: pad0_def)
    also have "[NUL] @ replicate (up4 (length out) - Suc (length out)) NUL =
               replicate (up4 (length out) - length out) NUL"
      using lt by (metis Suc_diff_Suc append_Cons append_Nil replicate_Suc)
    finally show ?thesis by (simp add: pad0_def)
  qed
qed

lemma payload_len4: "blob_fits c \<Longrightarrow> length (payload c) mod 4 = 0"
proof (cases c)
  case (AddString v)
  have "length (payload c) = up4 (length v + 1)"
    unfolding AddString by (rule length_payload_string)
  then show ?thesis by (simp only: up4_mod)
next
  case (AddBlob d n)
  assume "blob_fits c"
  with AddBlob have f: "unat n \<le> length d" by simp
  have "unat n \<le> up4 (unat n)" by (rule up4_ge)
  with f have "length (payload c) = 4 + up4 (unat n)"
    unfolding AddBlob by (simp add: be32_def le_bytes32_def)
  then have "length (payload c) mod 4 = up4 (unat n) mod 4" by simp
  then show ?thesis by (simp only: up4_mod)
qed (simp_all add: be32_def be64_def le_bytes32_def le_bytes64_def)

lemma concat_payload_len4:
  "\<forall>c\<in>set cs. blob_fits c \<Longrightarrow> length (concat (map payload cs)) mod 4 = 0"
proof (induction cs)
  case Nil
  then show ?case by simp
next
  case (Cons c cs)
  then have "length (payload c) mod 4 = 0" "length (concat (map payload cs)) mod 4 = 0"
    by (simp_all add: payload_len4)
  then show ?case by (simp add: mod_add_eq[symmetric] del: payload.simps)
qed

lemma call_fits:
  assumes "msg_wf m" "mArgBufferSize m mod 4 = 0" "call c m = Some (True, m')"
  shows "blob_fits c"
proof (cases c)
  case (AddBlob d n)
  with assms call_blob_fits show ?thesis by simp
qed simp_all

lemma built_step:
  assumes b: "built m a cs" and r: "call c m = Some (True, m')"
  shows "built m' a (cs @ [c])"
proof -
  from b have wf: "msg_wf m" and fits: "\<forall>c\<in>set cs. blob_fits c"
    and k: "mArgBufferSize m = length (concat (map payload cs))"
    by (simp_all add: built_def)
  from concat_payload_len4[OF fits] k have al: "mArgBufferSize m mod 4 = 0" by simp
  from call_ext[OF wf al r] have e: "extends m m' [tag_of c] (payload c)" .
  from call_fits[OF wf al r] have f: "blob_fits c" .
  from e have la: "live_address m' = live_address m"
    by (simp add: extends_def live_address_def)
  from b e f la show ?thesis
    by (simp add: built_def extends_def del: payload.simps)
qed

lemma append_all_built:
  "built m a cs0 \<Longrightarrow> append_all cs m = Some m' \<Longrightarrow> built m' a (cs0 @ cs)"
proof (induction cs arbitrary: m cs0)
  case Nil
  then show ?case by simp
next
  case (Cons c cs)
  from Cons.prems(2) obtain m1 where c: "call c m = Some (True, m1)"
    and r: "append_all cs m1 = Some m'"
    by (auto split: option.splits bool.splits prod.splits)
  from Cons.IH[OF built_step[OF Cons.prems(1) c] r] show ?case by simp
qed

lemma msg_clear_wf: "msg_wf msg_clear"
  by (simp add: msg_wf_def msg_clear_def)

lemma setAddress_built:
  assumes "setAddress a msg_clear = Some (True, m)"
  shows "built m a []"
proof -
  have len: "length a < MAX_ADDRESS_SIZE"
    using assms by (cases "length a < MAX_ADDRESS_SIZE") (simp_all add: setAddress_def)
  have arr: "length (mAddress msg_clear) = MAX_ADDRESS_SIZE" by (simp add: msg_clear_def)
  let ?u = "up4 (length a + 1)"
  have "?u \<le> up4 256" using len by (intro up4_mono) simp
  then have u: "?u \<le> 256" by (simp add: up4_def)
  have ge: "length a + 1 \<le> ?u" by (rule up4_ge)
  have m: "m = msg_clear\<lparr>mAddress := a @ replicate (?u - length a) NUL @ drop ?u (mAddress msg_clear),
                         mAddressSize := ?u\<rparr>"
    using assms setAddress_accept[OF len arr] by simp
  have t: "take ?u (a @ replicate (?u - length a) NUL @ drop ?u (mAddress msg_clear)) =
           a @ replicate (?u - length a) NUL"
    using ge by simp
  show ?thesis
    unfolding m using u ge t
    by (simp add: built_def msg_wf_def live_address_def live_tags_def live_args_def pad0_string
          msg_clear_def)
qed

lemma assemble_built: "assemble a cs = Some m \<Longrightarrow> built m a cs"
proof -
  assume "assemble a cs = Some m"
  then obtain m0 where s: "setAddress a msg_clear = Some (True, m0)"
    and r: "append_all cs m0 = Some m"
    by (auto simp: assemble_def split: option.splits bool.splits prod.splits)
  from append_all_built[OF setAddress_built[OF s] r] show ?thesis by simp
qed

lemma build_eq:
  assumes wf: "msg_wf m"
  shows "build m maxSize =
     (if mAddressSize m + align4 (1 + mTypeTagCount m + 1) + mArgBufferSize m > maxSize \<or>
         mAddressSize m = 0 then Some (0, [])
      else if length (pad_out (live_address m @ [CHR '',''] @ live_tags m @ [NUL]) @ live_args m) \<le> maxSize
        then Some (length (pad_out (live_address m @ [CHR '',''] @ live_tags m @ [NUL]) @ live_args m),
                   pad_out (live_address m @ [CHR '',''] @ live_tags m @ [NUL]) @ live_args m)
        else None)"
proof -
  have ra: "read_array (mAddress m) (mAddressSize m) = Some (live_address m)"
    and rt: "read_array (mTypeTags m) (mTypeTagCount m) = Some (live_tags m)"
    and rb: "read_array (mArgBuffer m) (mArgBufferSize m) = Some (live_args m)"
    using wf by (simp_all add: read_array_def msg_wf_def live_address_def live_tags_def live_args_def)
  show ?thesis
    unfolding build_def Let_def ra rt rb option.case by (rule refl)
qed

lemma built_out:
  assumes b: "built m a cs"
  shows "pad_out (live_address m @ [CHR '',''] @ live_tags m @ [NUL]) @ live_args m = wire a cs"
proof -
  have l4: "length (pad0 (a @ [NUL])) mod 4 = 0" by (simp add: length_pad0 up4_mod)
  have la: "live_address m = pad0 (a @ [NUL])" and lt: "live_tags m = map tag_of cs"
    and lb: "live_args m = concat (map payload cs)"
    using b by (simp_all add: built_def)
  show ?thesis
    unfolding la lt lb pad_out_eq wire_def using pad0_app[OF l4] by simp
qed

lemma build_wire:
  assumes b: "built m a cs" and r: "build m maxSize = Some (n, out)" and n: "n \<noteq> 0"
  shows "out = wire a cs \<and> n = length out"
proof -
  from b have wf: "msg_wf m" by (simp add: built_def)
  note eq = build_eq[OF wf, of maxSize, unfolded built_out[OF b]]
  show ?thesis
  proof (cases "mAddressSize m + align4 (1 + mTypeTagCount m + 1) + mArgBufferSize m > maxSize \<or>
         mAddressSize m = 0")
    case True
    with eq r n show ?thesis by simp
  next
    case False
    show ?thesis
    proof (cases "length (wire a cs) \<le> maxSize")
      case True
      with eq r False show ?thesis by auto
    next
      case f: False
      with eq r False show ?thesis by simp
    qed
  qed
qed

lemma length_wire:
  "\<forall>c\<in>set cs. blob_fits c \<Longrightarrow>
   length (wire a cs) = up4 (length a + 1) + up4 (length cs + 2) + length (concat (map payload cs))"
  by (simp add: wire_def length_pad0)

lemma build_ok:
  assumes b: "built m a cs" and l: "length (wire a cs) \<le> maxSize"
  shows "build m maxSize = Some (length (wire a cs), wire a cs)"
proof -
  from b have wf: "msg_wf m" and as: "mAddressSize m = up4 (length a + 1)"
    and tc: "mTypeTagCount m = length cs" and bs: "mArgBufferSize m = length (concat (map payload cs))"
    and fits: "\<forall>c\<in>set cs. blob_fits c"
    by (simp_all add: built_def)
  have c63: "length cs \<le> 63" using wf tc by (simp add: msg_wf_def)
  then have al: "align4 (1 + length cs + 1) = up4 (length cs + 2)"
    using align4_up4[of "length cs + 2"] by simp
  have "0 < up4 (length a + 1)" using up4_ge[of "length a + 1"] by simp
  then have nz: "mAddressSize m \<noteq> 0" using as by simp
  have tot: "mAddressSize m + align4 (1 + mTypeTagCount m + 1) + mArgBufferSize m = length (wire a cs)"
    unfolding as tc bs al length_wire[OF fits] by simp
  note eq = build_eq[OF wf, of maxSize, unfolded built_out[OF b] tot]
  show ?thesis using eq l nz by simp
qed

subsection \<open>Parsing what the builder serialized\<close>

lemma peek_nth: "i < size' \<Longrightarrow> size' \<le> length buffer \<Longrightarrow> peek buffer size' i = Some (buffer ! i)"
  by (simp add: peek_def)

lemma peek_mid:
  "peek (pre @ x # post) (length (pre @ x # post)) (length pre) = Some x"
  by (simp add: peek_def)

lemma peeks_mid:
  "k \<le> length xs \<Longrightarrow>
   peeks (pre @ xs @ post) (length (pre @ xs @ post)) (length pre) k = Some (take k xs)"
  by (simp add: peeks_def)

lemma scan_nul_app:
  "NUL \<notin> set v \<Longrightarrow>
   scan_nul (pre @ v @ NUL # post) (length (pre @ v @ NUL # post)) (length pre) =
     Some (length pre + length v)"
proof (induction v arbitrary: pre)
  case Nil
  have "peek (pre @ NUL # post) (length (pre @ NUL # post)) (length pre) = Some NUL"
    by (rule peek_mid)
  then show ?case by (subst scan_nul.simps) simp
next
  case (Cons x v)
  have p: "peek (pre @ x # v @ NUL # post) (length (pre @ x # v @ NUL # post)) (length pre) = Some x"
    by (rule peek_mid)
  from Cons.prems have x: "x \<noteq> NUL" and v: "NUL \<notin> set v" by auto
  from Cons.IH[OF v, of "pre @ [x]"]
  have "scan_nul (pre @ x # v @ NUL # post) (length (pre @ x # v @ NUL # post)) (Suc (length pre)) =
        Some (Suc (length pre + length v))" by simp
  with p x show ?case by (subst scan_nul.simps) simp
qed

lemma be32_decode: "swap_endian32 (le_word32 (be32 v)) = v"
  by (simp add: be32_def le_word32_bytes swap32_inv)

lemma be64_decode: "swap_endian64 (le_word64 (be64 v)) = v"
  by (simp add: be64_def le_word64_bytes swap64_inv)

lemma length_be32 [simp]: "length (be32 v) = 4"
  by (simp add: be32_def le_bytes32_def)

lemma length_be64 [simp]: "length (be64 v) = 8"
  by (simp add: be64_def le_bytes64_def)

lemma parse_arg_i:
  "parse_arg buffer size' pos CHR ''i'' =
     (if pos + 4 > size' then Some None
      else map_option (\<lambda>bs. Some (pos + 4, (empty_slot CHR ''i'')\<lparr>val := Int32 (swap_endian32 (le_word32 bs))\<rparr>))
             (peeks buffer size' pos 4))"
  unfolding parse_arg_def empty_slot_def Let_def by simp

lemma parse_arg_f:
  "parse_arg buffer size' pos CHR ''f'' =
     (if pos + 4 > size' then Some None
      else map_option (\<lambda>bs. Some (pos + 4, (empty_slot CHR ''f'')\<lparr>val := Float32 (swap_endian32 (le_word32 bs))\<rparr>))
             (peeks buffer size' pos 4))"
  unfolding parse_arg_def empty_slot_def Let_def by simp

lemma parse_arg_s:
  "parse_arg buffer size' pos CHR ''s'' =
     (case scan_nul buffer size' pos of
           None \<Rightarrow> None
         | Some p \<Rightarrow>
             if p \<ge> size' then Some None
             else Some (Some (align4 (p + 1), (empty_slot CHR ''s'')\<lparr>sptr := Some pos\<rparr>)))"
  unfolding parse_arg_def empty_slot_def Let_def by simp

lemma parse_arg_b:
  "parse_arg buffer size' pos CHR ''b'' =
     (if pos + 4 > size' then Some None
         else case peeks buffer size' pos 4 of
           None \<Rightarrow> None
         | Some bs \<Rightarrow>
             (let n = swap_endian32 (le_word32 bs); pos1 = pos + 4 in
              if sz (pos1 + unat n) > size' then Some None
              else Some (Some (align4 (sz (pos1 + unat n)),
                               (empty_slot CHR ''b'')\<lparr>blobData := Some pos1, blobSize := Some n\<rparr>))))"
  unfolding parse_arg_def empty_slot_def Let_def by simp

lemma parse_arg_h:
  "parse_arg buffer size' pos CHR ''h'' =
     (if pos + 8 > size' then Some None
      else map_option (\<lambda>bs. Some (pos + 8, (empty_slot CHR ''h'')\<lparr>val := Int64 (swap_endian64 (le_word64 bs))\<rparr>))
             (peeks buffer size' pos 8))"
  unfolding parse_arg_def empty_slot_def Let_def by simp

lemma parse_arg_d:
  "parse_arg buffer size' pos CHR ''d'' =
     (if pos + 8 > size' then Some None
      else map_option (\<lambda>bs. Some (pos + 8, (empty_slot CHR ''d'')\<lparr>val := Float64 (swap_endian64 (le_word64 bs))\<rparr>))
             (peeks buffer size' pos 8))"
  unfolding parse_arg_def empty_slot_def Let_def by simp

lemma parse_arg_t:
  "parse_arg buffer size' pos CHR ''t'' =
     (if pos + 8 > size' then Some None
         else case peeks buffer size' pos 4 of
           None \<Rightarrow> None
         | Some bs \<Rightarrow>
             map_option (\<lambda>bf. Some (pos + 8,
                  (empty_slot CHR ''t'')\<lparr>val := Timetag \<lparr>seconds = swap_endian32 (le_word32 bs),
                                        fractions = swap_endian32 (le_word32 bf)\<rparr>\<rparr>))
               (peeks buffer size' (pos + 4) 4))"
  unfolding parse_arg_def empty_slot_def Let_def by simp

lemma parse_arg_m:
  "parse_arg buffer size' pos CHR ''m'' =
     (if pos + 4 > size' then Some None
         else map_option (\<lambda>bs. Some (pos + 4,
                  (empty_slot CHR ''m'')\<lparr>val := Midi (word_of_byte (bs ! 0)) (word_of_byte (bs ! 1))
                                    (word_of_byte (bs ! 2)) (word_of_byte (bs ! 3))\<rparr>))
                (peeks buffer size' pos 4))"
  unfolding parse_arg_def empty_slot_def Let_def by simp

lemma parse_arg_c:
  "parse_arg buffer size' pos CHR ''c'' =
     (if pos + 4 > size' then Some None
         else map_option (\<lambda>c. Some (pos + 4, (empty_slot CHR ''c'')\<lparr>val := Char c\<rparr>))
                (peek buffer size' (pos + 3)))"
  unfolding parse_arg_def empty_slot_def Let_def by simp

lemma parse_arg_r:
  "parse_arg buffer size' pos CHR ''r'' =
     (if pos + 4 > size' then Some None
         else map_option (\<lambda>bs. Some (pos + 4,
                  (empty_slot CHR ''r'')\<lparr>val := Color (word_of_byte (bs ! 0)) (word_of_byte (bs ! 1))
                                     (word_of_byte (bs ! 2)) (word_of_byte (bs ! 3))\<rparr>))
                (peeks buffer size' pos 4))"
  unfolding parse_arg_def empty_slot_def Let_def by simp

lemma parse_arg_tag_only:
  "t = CHR ''T'' \<or> t = CHR ''F'' \<or> t = CHR ''N'' \<or> t = CHR ''I'' \<Longrightarrow>
   parse_arg buffer size' pos t = Some (Some (pos, empty_slot t))"
  by (auto simp: parse_arg_def empty_slot_def)

lemma peeks_here:
  "length xs = k \<Longrightarrow>
   peeks (pre @ xs @ post) (length pre + (k + length post)) (length pre) k = Some xs"
  by (simp add: peeks_def)

lemma parse_arg_int:
  "parse_arg (pre @ be32 v @ post) (length pre + (4 + length post)) (length pre) CHR ''i'' =
     Some (Some (length pre + 4, (empty_slot CHR ''i'')\<lparr>val := Int32 v\<rparr>))"
  unfolding parse_arg_i using peeks_here[of "be32 v" 4 pre post] by (simp add: be32_decode)

lemma parse_arg_float:
  "parse_arg (pre @ be32 v @ post) (length pre + (4 + length post)) (length pre) CHR ''f'' =
     Some (Some (length pre + 4, (empty_slot CHR ''f'')\<lparr>val := Float32 v\<rparr>))"
  unfolding parse_arg_f using peeks_here[of "be32 v" 4 pre post] by (simp add: be32_decode)

lemma parse_arg_int64:
  "parse_arg (pre @ be64 v @ post) (length pre + (8 + length post)) (length pre) CHR ''h'' =
     Some (Some (length pre + 8, (empty_slot CHR ''h'')\<lparr>val := Int64 v\<rparr>))"
  unfolding parse_arg_h using peeks_here[of "be64 v" 8 pre post] by (simp add: be64_decode)

lemma parse_arg_double:
  "parse_arg (pre @ be64 v @ post) (length pre + (8 + length post)) (length pre) CHR ''d'' =
     Some (Some (length pre + 8, (empty_slot CHR ''d'')\<lparr>val := Float64 v\<rparr>))"
  unfolding parse_arg_d using peeks_here[of "be64 v" 8 pre post] by (simp add: be64_decode)

lemma parse_arg_timetag:
  "parse_arg (pre @ (be32 (seconds tt) @ be32 (fractions tt)) @ post) (length pre + (8 + length post))
      (length pre) CHR ''t'' =
     Some (Some (length pre + 8, (empty_slot CHR ''t'')\<lparr>val := Timetag tt\<rparr>))"
proof -
  have a: "peeks (pre @ (be32 (seconds tt) @ be32 (fractions tt)) @ post) (length pre + (8 + length post))
             (length pre) 4 = Some (be32 (seconds tt))"
    by (simp add: peeks_def)
  have b: "peeks (pre @ (be32 (seconds tt) @ be32 (fractions tt)) @ post) (length pre + (8 + length post))
             (length pre + 4) 4 = Some (be32 (fractions tt))"
    by (simp add: peeks_def)
  show ?thesis unfolding parse_arg_t a b by (simp add: be32_decode)
qed

lemma parse_arg_four:
  "parse_arg (pre @ [byte_of p, byte_of st, byte_of d1, byte_of d2] @ post) (length pre + (4 + length post))
      (length pre) CHR ''m'' =
     Some (Some (length pre + 4, (empty_slot CHR ''m'')\<lparr>val := Midi p st d1 d2\<rparr>))"
  "parse_arg (pre @ [byte_of p, byte_of st, byte_of d1, byte_of d2] @ post) (length pre + (4 + length post))
      (length pre) CHR ''r'' =
     Some (Some (length pre + 4, (empty_slot CHR ''r'')\<lparr>val := Color p st d1 d2\<rparr>))"
  unfolding parse_arg_m parse_arg_r
  using peeks_here[of "[byte_of p, byte_of st, byte_of d1, byte_of d2]" 4 pre post]
  by (simp_all add: word_of_byte_8)

lemma parse_arg_char:
  "parse_arg (pre @ [NUL, NUL, NUL, c] @ post) (length pre + (4 + length post)) (length pre) CHR ''c'' =
     Some (Some (length pre + 4, (empty_slot CHR ''c'')\<lparr>val := Char c\<rparr>))"
  unfolding parse_arg_c by (simp add: peek_def nth_append)

lemma parse_arg_string:
  assumes nul: "NUL \<notin> set v" and al: "length pre mod 4 = 0"
    and small: "length pre + length v < 2147483648"
  shows "parse_arg (pre @ (v @ replicate (up4 (length v + 1) - length v) NUL) @ post)
           (length pre + (up4 (length v + 1) + length post)) (length pre) CHR ''s'' =
     Some (Some (length pre + up4 (length v + 1), (empty_slot CHR ''s'')\<lparr>sptr := Some (length pre)\<rparr>))"
proof -
  let ?k = "up4 (length v + 1) - (length v + 1)"
  have ge: "length v + 1 \<le> up4 (length v + 1)" by (rule up4_ge)
  then have r: "replicate (up4 (length v + 1) - length v) NUL = NUL # replicate ?k NUL"
    by (metis Suc_diff_le Suc_eq_plus1 diff_Suc_Suc replicate_Suc)
  have b: "pre @ (v @ replicate (up4 (length v + 1) - length v) NUL) @ post =
           pre @ v @ NUL # (replicate ?k NUL @ post)"
    unfolding r by simp
  have l: "length pre + (up4 (length v + 1) + length post) =
           length (pre @ v @ NUL # (replicate ?k NUL @ post))"
    using ge by simp
  have s: "scan_nul (pre @ v @ NUL # (replicate ?k NUL @ post))
             (length (pre @ v @ NUL # (replicate ?k NUL @ post))) (length pre) =
           Some (length pre + length v)"
    by (rule scan_nul_app[OF nul])
  have a: "align4 (length pre + length v + 1) = length pre + up4 (length v + 1)"
    using small align4_up4[of "length pre + length v + 1"] up4_add[OF al, of "length v + 1"]
    by (simp add: add.assoc)
  show ?thesis
    unfolding parse_arg_s b l s using a by simp
qed

lemma parse_arg_blob:
  assumes fit: "unat n \<le> length d" and al: "length pre mod 4 = 0"
    and small: "length pre + (4 + unat n) < 2147483648"
  shows "parse_arg (pre @ (be32 n @ take (unat n) d @ replicate (up4 (unat n) - unat n) NUL) @ post)
           (length pre + (4 + up4 (unat n) + length post)) (length pre) CHR ''b'' =
     Some (Some (length pre + (4 + up4 (unat n)),
        (empty_slot CHR ''b'')\<lparr>blobData := Some (length pre + 4), blobSize := Some n\<rparr>))"
proof -
  let ?rest = "take (unat n) d @ replicate (up4 (unat n) - unat n) NUL"
  have ge: "unat n \<le> up4 (unat n)" by (rule up4_ge)
  have lr: "length ?rest = up4 (unat n)" using fit ge by simp
  have p: "peeks (pre @ (be32 n @ ?rest) @ post) (length pre + (4 + up4 (unat n) + length post))
             (length pre) 4 = Some (be32 n)"
    using lr by (simp add: peeks_def)
  have z: "sz (length pre + 4 + unat n) = length pre + 4 + unat n"
    using small by (intro sz_id) simp
  have al4: "(length pre + 4) mod 4 = 0" using al by simp
  have a: "align4 (length pre + 4 + unat n) = length pre + 4 + up4 (unat n)"
    using small align4_up4[of "length pre + 4 + unat n"] up4_add[OF al4, of "unat n"]
    by simp
  show ?thesis
    unfolding parse_arg_b p using z a ge by (simp add: be32_decode Let_def)
qed

lemma length_payload_blob:
  "unat n \<le> length d \<Longrightarrow> length (payload (AddBlob d n)) = 4 + up4 (unat n)"
  using up4_ge[of "unat n"] by simp

lemma parse_arg_payload:
  assumes cs: "c_string_arg c" and fit: "blob_fits c" and al: "length pre mod 4 = 0"
    and small: "length pre + length (payload c) < 2147483648"
  shows "parse_arg (pre @ payload c @ post) (length pre + (length (payload c) + length post))
           (length pre) (tag_of c) =
         Some (Some (length pre + length (payload c), slot c (length pre)))"
proof (cases c)
  case (AddInt v)
  then show ?thesis using parse_arg_int[of pre v post] by simp
next
  case (AddFloat v)
  then show ?thesis using parse_arg_float[of pre v post] by simp
next
  case (AddString v)
  with cs have nul: "NUL \<notin> set v" by simp
  have l: "length (payload c) = up4 (length v + 1)"
    unfolding AddString by (rule length_payload_string)
  have "length v \<le> length (payload c)" unfolding AddString by simp
  with small have sm: "length pre + length v < 2147483648" by simp
  show ?thesis
    unfolding l using parse_arg_string[OF nul al sm, of post]
    by (simp add: AddString)
next
  case (AddBlob d n)
  with fit have f: "unat n \<le> length d" by simp
  have l: "length (payload c) = 4 + up4 (unat n)"
    unfolding AddBlob by (rule length_payload_blob[OF f])
  have "unat n \<le> up4 (unat n)" by (rule up4_ge)
  with small l have sm: "length pre + (4 + unat n) < 2147483648" by simp
  show ?thesis
    unfolding l using parse_arg_blob[OF f al sm, of post]
    by (simp add: AddBlob)
next
  case (AddInt64 v)
  then show ?thesis using parse_arg_int64[of pre v post] by simp
next
  case (AddDouble v)
  then show ?thesis using parse_arg_double[of pre v post] by simp
next
  case (AddTimetag tt)
  then show ?thesis using parse_arg_timetag[of pre tt post] by simp
next
  case AddTrue
  then show ?thesis by (simp add: parse_arg_tag_only)
next
  case AddFalse
  then show ?thesis by (simp add: parse_arg_tag_only)
next
  case AddNil
  then show ?thesis by (simp add: parse_arg_tag_only)
next
  case AddInfinitum
  then show ?thesis by (simp add: parse_arg_tag_only)
next
  case (AddMidi p st d1 d2)
  have l: "length (payload c) = 4" unfolding AddMidi by simp
  show ?thesis
    unfolding l unfolding AddMidi tag_of.simps slot.simps payload.simps
    by (rule parse_arg_four(1))
next
  case (AddChar ch)
  have l: "length (payload c) = 4" unfolding AddChar by simp
  show ?thesis
    unfolding l unfolding AddChar tag_of.simps slot.simps payload.simps
    by (rule parse_arg_char)
next
  case (AddColor r g b a)
  have l: "length (payload c) = 4" unfolding AddColor by simp
  show ?thesis
    unfolding l unfolding AddColor tag_of.simps slot.simps payload.simps
    by (rule parse_arg_four(2))
qed

lemma c_string_here:
  "NUL \<notin> set v \<Longrightarrow> c_string (pre @ v @ NUL # post) (length pre) = v"
proof -
  assume nul: "NUL \<notin> set v"
  have "takeWhile (\<lambda>c. c \<noteq> NUL) (v @ NUL # post) = v @ takeWhile (\<lambda>c. c \<noteq> NUL) (NUL # post)"
    by (rule takeWhile_append2) (use nul in auto)
  then show ?thesis by (simp add: c_string_def)
qed

lemma received_slot:
  assumes cs: "c_string_arg c" and fit: "blob_fits c"
  shows "received (pre @ payload c @ post) (slot c (length pre)) = Some (sent c)"
proof (cases c)
  case (AddString v)
  with cs have nul: "NUL \<notin> set v" by simp
  have ge: "length v + 1 \<le> up4 (length v + 1)" by (rule up4_ge)
  then have r: "replicate (up4 (length v + 1) - length v) NUL =
                NUL # replicate (up4 (length v + 1) - (length v + 1)) NUL"
    by (metis Suc_diff_le Suc_eq_plus1 diff_Suc_Suc replicate_Suc)
  have b: "pre @ payload c @ post =
           pre @ v @ NUL # (replicate (up4 (length v + 1) - (length v + 1)) NUL @ post)"
    unfolding AddString payload.simps r by simp
  have cv: "c_string (pre @ payload c @ post) (length pre) = v"
    unfolding b by (rule c_string_here[OF nul])
  show ?thesis
    using cv by (simp add: received_def empty_slot_def AddString del: payload.simps)
next
  case (AddBlob d n)
  with fit have f: "unat n \<le> length d" by simp
  then show ?thesis
    unfolding AddBlob by (simp add: received_def empty_slot_def)
qed (simp_all add: received_def empty_slot_def)

lemma received_slots:
  "\<forall>c\<in>set cs. c_string_arg c \<and> blob_fits c \<Longrightarrow>
   map (received (pre @ concat (map payload cs) @ post)) (slots cs (length pre)) = map (Some \<circ> sent) cs"
proof (induction cs arbitrary: pre)
  case Nil
  then show ?case by simp
next
  case (Cons c cs)
  then have c: "c_string_arg c" "blob_fits c" and r: "\<forall>c\<in>set cs. c_string_arg c \<and> blob_fits c"
    by simp_all
  have h: "received (pre @ payload c @ (concat (map payload cs) @ post)) (slot c (length pre)) =
           Some (sent c)"
    by (rule received_slot[OF c])
  have t: "map (received ((pre @ payload c) @ concat (map payload cs) @ post))
             (slots cs (length (pre @ payload c))) = map (Some \<circ> sent) cs"
    by (rule Cons.IH[OF r])
  from h t show ?case by (simp del: payload.simps sent.simps slot.simps)
qed

lemma tag_of_not_NUL: "tag_of c \<noteq> NUL"
  by (cases c) simp_all

lemma tag_of_alphabet: "tag_of c \<in> set ''ifsbhdtTFNImcr''"
  by (cases c) simp_all

lemma parse_args_payloads:
  assumes ok: "\<forall>c\<in>set cs. c_string_arg c \<and> blob_fits c"
    and al: "length pre mod 4 = 0"
    and small: "length pre + length (concat (map payload cs)) < 2147483648"
    and tags: "drop ty pre = map tag_of cs @ NUL # rest"
    and cnt: "length (mArgs v) + length cs < MAX_ARGS"
  shows "parse_args (pre @ concat (map payload cs)) (length pre + length (concat (map payload cs)))
           ty (length pre) v =
         Some (True, v\<lparr>mArgs := mArgs v @ slots cs (length pre)\<rparr>)"
  using assms
proof (induction cs arbitrary: pre ty v rest)
  case Nil
  from Nil.prems(4) have ty: "ty < length pre" and n: "pre ! ty = NUL"
    by (metis drop_eq_Nil list.distinct(1) not_le map_is_Nil_conv append_Nil,
        metis Nil.prems(4) append_Nil list.map(1) nth_via_drop)
  then have "peek pre (length pre) ty = Some NUL" by (simp add: peek_def)
  then show ?case using parse_args_stop[of pre "length pre" ty NUL v "length pre"] by simp
next
  case (Cons c cs)
  let ?buf = "pre @ concat (map payload (c # cs))"
  let ?size = "length pre + length (concat (map payload (c # cs)))"
  let ?post = "concat (map payload cs)"
  from Cons.prems(1) have c: "c_string_arg c" "blob_fits c"
    and r: "\<forall>c\<in>set cs. c_string_arg c \<and> blob_fits c" by simp_all
  from Cons.prems(4) have d: "drop ty pre = tag_of c # (map tag_of cs @ NUL # rest)" by simp
  then have ty: "ty < length pre" by (metis drop_eq_Nil list.distinct(1) not_le)
  from d have t: "pre ! ty = tag_of c" by (metis nth_via_drop)
  from d have d': "drop (Suc ty) pre = map tag_of cs @ NUL # rest"
    by (metis drop_Suc list.sel(3) tl_drop)
  have pk: "peek ?buf ?size ty = Some (tag_of c)"
    using ty t by (simp add: peek_def nth_append del: payload.simps)
  have sm: "length pre + length (payload c) < 2147483648"
    using Cons.prems(3) by (simp del: payload.simps)
  have pa: "parse_arg ?buf ?size (length pre) (tag_of c) =
            Some (Some (length pre + length (payload c), slot c (length pre)))"
    using parse_arg_payload[OF c Cons.prems(2) sm, of ?post] by (simp del: payload.simps)
  have cnt: "length (mArgs v) < MAX_ARGS" using Cons.prems(5) by simp
  have step: "parse_args ?buf ?size ty (length pre) v =
        parse_args ?buf ?size (Suc ty) (length pre + length (payload c))
          (v\<lparr>mArgs := mArgs v @ [slot c (length pre)]\<rparr>)"
    by (rule parse_args_step[OF pk tag_of_not_NUL cnt pa])
  have al': "length (pre @ payload c) mod 4 = 0"
    using Cons.prems(2) payload_len4[OF c(2)] by (simp add: mod_add_eq[symmetric] del: payload.simps)
  have sm': "length (pre @ payload c) + length (concat (map payload cs)) < 2147483648"
    using Cons.prems(3) by (simp del: payload.simps)
  have d'': "drop (Suc ty) (pre @ payload c) = map tag_of cs @ NUL # (rest @ payload c)"
    using d' ty by (simp del: payload.simps)
  have cnt': "length (mArgs (v\<lparr>mArgs := mArgs v @ [slot c (length pre)]\<rparr>)) + length cs < MAX_ARGS"
    using Cons.prems(5) by simp
  from Cons.IH[OF r al' sm' d'' cnt']
  have "parse_args ?buf ?size (Suc ty) (length pre + length (payload c))
          (v\<lparr>mArgs := mArgs v @ [slot c (length pre)]\<rparr>) =
        Some (True, v\<lparr>mArgs := mArgs v @ slots (c # cs) (length pre)\<rparr>)"
    by (simp add: add.assoc del: payload.simps slot.simps)
  with step show ?case by simp
qed

lemma up4_pos: "0 < n \<Longrightarrow> 4 \<le> up4 n"
  unfolding up4_def by presburger

lemma pad0_NUL: "pad0 (v @ [NUL]) = v @ NUL # replicate (up4 (length v + 1) - (length v + 1)) NUL"
  by (simp add: pad0_def)

text \<open>
  The parser on a buffer that begins with a terminated and padded address and a terminated
  and padded type-tag string: it reaches the argument loop with the view set up.
\<close>

lemma parse_header:
  assumes a: "a \<noteq> []" "hd a = CHR ''/''" "NUL \<notin> set a"
    and T: "NUL \<notin> set T"
    and small: "length (pad0 (a @ [NUL]) @ pad0 (CHR '','' # T @ [NUL]) @ P) < 2147483648"
  shows "parse (pad0 (a @ [NUL]) @ pad0 (CHR '','' # T @ [NUL]) @ P)
           (length (pad0 (a @ [NUL]) @ pad0 (CHR '','' # T @ [NUL]) @ P)) =
         parse_args (pad0 (a @ [NUL]) @ pad0 (CHR '','' # T @ [NUL]) @ P)
           (length (pad0 (a @ [NUL]) @ pad0 (CHR '','' # T @ [NUL]) @ P))
           (up4 (length a + 1) + 1) (up4 (length a + 1) + up4 (length T + 2))
           \<lparr>address = in_buffer 0, typeTags = in_buffer (up4 (length a + 1) + 1), mArgs = []\<rparr>"
proof -
  let ?ra = "replicate (up4 (length a + 1) - (length a + 1)) NUL"
  let ?rt = "replicate (up4 (length (CHR '','' # T) + 1) - (length (CHR '','' # T) + 1)) NUL"
  let ?A = "pad0 (a @ [NUL])"
  let ?TG = "pad0 (CHR '','' # T @ [NUL])"
  let ?W = "?A @ ?TG @ P"
  let ?n = "length ?W"
  let ?v1 = "view_clear\<lparr>address := in_buffer 0\<rparr>"
  let ?v2 = "?v1\<lparr>typeTags := in_buffer (length ?A + 1)\<rparr>"
  have A: "?A = a @ NUL # ?ra" by (rule pad0_NUL)
  have TG: "?TG = (CHR '','' # T) @ NUL # ?rt" using pad0_NUL[of "CHR '','' # T"] by simp
  have lA: "length ?A = up4 (length a + 1)" by (simp add: length_pad0)
  have lTG: "length ?TG = up4 (length T + 2)" by (simp add: length_pad0)
  have A4: "4 \<le> length ?A" unfolding lA by (rule up4_pos) simp
  have TG4: "4 \<le> length ?TG" unfolding lTG by (rule up4_pos) simp
  have n: "?n = length ?A + (length ?TG + length P)" by simp
  have s4: "\<not> ?n < 4" using A4 n by linarith
  have W0: "?W = [] @ a @ NUL # (?ra @ ?TG @ P)" unfolding A by simp
  have p0: "peek ?W ?n 0 = Some CHR ''/''"
  proof -
    have "?W ! 0 = hd a" using a(1) unfolding A by (simp add: nth_append hd_conv_nth)
    moreover have "0 < length ?W" using s4 by linarith
    ultimately show ?thesis using a(2) by (simp add: peek_def)
  qed
  have sc0: "scan_nul ?W ?n 0 = Some (length a)"
    using scan_nul_app[OF a(3), of "[]" "?ra @ ?TG @ P"] unfolding W0[symmetric] by simp
  have la: "\<not> ?n \<le> length a" using n lA up4_ge[of "length a + 1"] by linarith
  have al0: "align4 (length a + 1) = length ?A"
    unfolding lA using small n lA up4_ge[of "length a + 1"] by (intro align4_up4) linarith
  have st1: "parse ?W ?n = parse_tags ?W ?n (length ?A) ?v1"
    unfolding parse_slash[OF s4 p0] sc0 using la al0 by simp
  have W1: "?W = ?A @ CHR '','' # (T @ NUL # ?rt @ P)" unfolding TG by simp
  have pos: "length ?A < ?n" using n TG4 by linarith
  have pc: "peek ?W ?n (length ?A) = Some CHR '',''"
    using peek_mid[of ?A "CHR '',''" "T @ NUL # ?rt @ P"] unfolding W1[symmetric] .
  have W2: "?W = ?A @ (CHR '','' # T) @ NUL # (?rt @ P)" unfolding TG by simp
  have nn: "NUL \<notin> set (CHR '','' # T)" using T by simp
  have sc1: "scan_nul ?W ?n (length ?A) = Some (length ?A + length (CHR '','' # T))"
    using scan_nul_app[OF nn, of ?A "?rt @ P"] unfolding W2[symmetric] .
  have q: "\<not> ?n \<le> length ?A + length (CHR '','' # T)"
    using n lTG up4_ge[of "length T + 2"] by simp
  have A4m: "length ?A mod 4 = 0" unfolding lA by (rule up4_mod)
  have al1: "align4 (length ?A + length (CHR '','' # T) + 1) = length ?A + length ?TG"
  proof -
    have "length ?A + length (CHR '','' # T) + 1 = length ?A + (length T + 2)" by simp
    moreover have "up4 (length ?A + (length T + 2)) = length ?A + up4 (length T + 2)"
      by (rule up4_add[OF A4m])
    moreover have "length ?A + (length T + 2) < 4294967293"
      using small n lTG up4_ge[of "length T + 2"] by linarith
    ultimately show ?thesis using align4_up4[of "length ?A + (length T + 2)"] lTG by simp
  qed
  have st2: "parse_tags ?W ?n (length ?A) ?v1 =
             parse_args ?W ?n (length ?A + 1) (length ?A + length ?TG) ?v2"
    unfolding parse_tags_comma[OF pos pc] sc1 using q al1 by simp
  have v2: "?v2 = \<lparr>address = in_buffer 0, typeTags = in_buffer (up4 (length a + 1) + 1), mArgs = []\<rparr>"
    unfolding lA by (simp add: view_clear_def)
  have "parse ?W ?n = parse_args ?W ?n (length ?A + 1) (length ?A + length ?TG) ?v2"
    using st1 st2 by simp
  then show ?thesis unfolding v2 unfolding lA lTG .
qed

lemma parse_wire:
  assumes a: "a \<noteq> []" "hd a = CHR ''/''" "NUL \<notin> set a"
    and ok: "\<forall>c\<in>set cs. c_string_arg c \<and> blob_fits c"
    and cnt: "length cs < MAX_ARGS"
    and small: "length (wire a cs) < 2147483648"
  shows "parse (wire a cs) (length (wire a cs)) =
     Some (True, \<lparr>address = in_buffer 0, typeTags = in_buffer (up4 (length a + 1) + 1),
                  mArgs = slots cs (up4 (length a + 1) + up4 (length cs + 2))\<rparr>)"
proof -
  let ?T = "map tag_of cs"
  let ?A = "pad0 (a @ [NUL])"
  let ?TG = "pad0 (CHR '','' # ?T @ [NUL])"
  let ?P = "concat (map payload cs)"
  let ?v2 = "\<lparr>address = in_buffer 0, typeTags = in_buffer (up4 (length a + 1) + 1), mArgs = []\<rparr>"
  have W: "wire a cs = ?A @ ?TG @ ?P" by (simp add: wire_def)
  have nn: "NUL \<notin> set ?T"
  proof
    assume "NUL \<in> set ?T"
    then obtain c where "tag_of c = NUL" by auto
    with tag_of_not_NUL show False by simp
  qed
  have lA: "length ?A = up4 (length a + 1)" by (simp add: length_pad0)
  have lTG: "length ?TG = up4 (length cs + 2)" by (simp add: length_pad0)
  have hd: "parse (wire a cs) (length (wire a cs)) =
        parse_args (wire a cs) (length (wire a cs)) (up4 (length a + 1) + 1)
          (up4 (length a + 1) + up4 (length cs + 2)) ?v2"
    using parse_header[OF a nn, of ?P] small unfolding W by simp
  have W3: "wire a cs = (?A @ ?TG) @ ?P" unfolding W by simp
  have n3: "length (wire a cs) = length (?A @ ?TG) + length ?P" unfolding W by simp
  have l3: "length (?A @ ?TG) = up4 (length a + 1) + up4 (length cs + 2)" using lA lTG by simp
  have TG4m: "length (?A @ ?TG) mod 4 = 0"
    unfolding l3 using up4_mod[of "length a + 1"] up4_mod[of "length cs + 2"]
    by (simp add: mod_add_eq[symmetric])
  have TGN: "?TG = (CHR '','' # ?T) @
      NUL # replicate (up4 (length (CHR '','' # ?T) + 1) - (length (CHR '','' # ?T) + 1)) NUL"
    using pad0_NUL[of "CHR '','' # ?T"] by simp
  have dr: "drop (up4 (length a + 1) + 1) (?A @ ?TG) =
      ?T @ NUL # replicate (up4 (length (CHR '','' # ?T) + 1) - (length (CHR '','' # ?T) + 1)) NUL"
    unfolding lA[symmetric] TGN by simp
  have sm: "length (?A @ ?TG) + length ?P < 2147483648" using small n3 by simp
  have c0: "length (mArgs ?v2) + length cs < MAX_ARGS" using cnt by simp
  have st3: "parse_args ((?A @ ?TG) @ ?P) (length (?A @ ?TG) + length ?P) (up4 (length a + 1) + 1)
               (length (?A @ ?TG)) ?v2 =
             Some (True, ?v2\<lparr>mArgs := mArgs ?v2 @ slots cs (length (?A @ ?TG))\<rparr>)"
    by (rule parse_args_payloads[OF ok TG4m sm dr c0])
  note st3' = st3[unfolded W3[symmetric] l3]
  have n3': "length (wire a cs) = up4 (length a + 1) + up4 (length cs + 2) + length ?P"
    using n3 l3 by simp
  show ?thesis
    unfolding hd unfolding n3' using st3' by simp
qed

lemma deref_wire:
  assumes a: "NUL \<notin> set a"
  shows "c_string (wire a cs) 0 = a"
    and "c_string (wire a cs) (up4 (length a + 1) + 1) = map tag_of cs"
proof -
  let ?T = "map tag_of cs"
  let ?A = "pad0 (a @ [NUL])"
  let ?P = "concat (map payload cs)"
  have W0: "wire a cs = [] @ a @ NUL #
              (replicate (up4 (length a + 1) - (length a + 1)) NUL @
               pad0 (CHR '','' # ?T @ [NUL]) @ ?P)"
    by (simp add: wire_def pad0_NUL)
  show "c_string (wire a cs) 0 = a"
    using c_string_here[OF a, of "[]"] unfolding W0 by simp
  have nn: "NUL \<notin> set ?T"
  proof
    assume "NUL \<in> set ?T"
    then obtain c where "tag_of c = NUL" by auto
    with tag_of_not_NUL show False by simp
  qed
  have TG: "pad0 (CHR '','' # ?T @ [NUL]) = (CHR '','' # ?T) @
      NUL # replicate (up4 (length (CHR '','' # ?T) + 1) - (length (CHR '','' # ?T) + 1)) NUL"
    using pad0_NUL[of "CHR '','' # ?T"] by simp
  have W1: "wire a cs = (?A @ [CHR '','']) @ ?T @ NUL #
      (replicate (up4 (length (CHR '','' # ?T) + 1) - (length (CHR '','' # ?T) + 1)) NUL @ ?P)"
    unfolding wire_def TG by simp
  have l: "length (?A @ [CHR '','']) = up4 (length a + 1) + 1" by (simp add: length_pad0)
  show "c_string (wire a cs) (up4 (length a + 1) + 1) = ?T"
    using c_string_here[OF nn, of "?A @ [CHR '','']"
        "replicate (up4 (length (CHR '','' # ?T) + 1) - (length (CHR '','' # ?T) + 1)) NUL @ ?P"]
    unfolding W1[symmetric] l .
qed

lemma length_slots: "length (slots cs pos) = length cs"
  by (induction cs arbitrary: pos) simp_all

lemma built_small:
  assumes "built m a cs"
  shows "length cs < MAX_ARGS" and "length (wire a cs) \<le> 1092"
proof -
  from assms have wf: "msg_wf m" and as: "mAddressSize m = up4 (length a + 1)"
    and tc: "mTypeTagCount m = length cs" and bs: "mArgBufferSize m = length (concat (map payload cs))"
    and fits: "\<forall>c\<in>set cs. blob_fits c"
    by (simp_all add: built_def)
  from wf tc have c: "length cs \<le> 63" by (simp add: msg_wf_def)
  then show "length cs < MAX_ARGS" by simp
  from c have "up4 (length cs + 2) \<le> up4 65" by (intro up4_mono) simp
  then have t: "up4 (length cs + 2) \<le> 68" by (simp add: up4_def)
  from wf as have a: "up4 (length a + 1) \<le> 256" by (simp add: msg_wf_def)
  from wf bs have b: "length (concat (map payload cs)) \<le> 768" by (simp add: msg_wf_def)
  show "length (wire a cs) \<le> 1092"
    unfolding length_wire[OF fits] using a t b by linarith
qed

lemma parse_built:
  assumes b: "built m a cs" and a: "a \<noteq> []" "hd a = CHR ''/''" "NUL \<notin> set a"
    and strs: "\<forall>c\<in>set cs. c_string_arg c"
  shows "parse (wire a cs) (length (wire a cs)) =
     Some (True, \<lparr>address = in_buffer 0, typeTags = in_buffer (up4 (length a + 1) + 1),
                  mArgs = slots cs (up4 (length a + 1) + up4 (length cs + 2))\<rparr>)"
proof -
  from b have fits: "\<forall>c\<in>set cs. blob_fits c" by (simp add: built_def)
  with strs have ok: "\<forall>c\<in>set cs. c_string_arg c \<and> blob_fits c" by simp
  from built_small[OF b] have "length cs < MAX_ARGS" "length (wire a cs) < 2147483648" by simp_all
  then show ?thesis by (intro parse_wire a ok)
qed

lemma received_wire:
  assumes ok: "\<forall>c\<in>set cs. c_string_arg c \<and> blob_fits c"
  shows "map (received (wire a cs)) (slots cs (up4 (length a + 1) + up4 (length cs + 2))) =
         map (Some \<circ> sent) cs"
proof -
  let ?pre = "pad0 (a @ [NUL]) @ pad0 (CHR '','' # map tag_of cs @ [NUL])"
  have w: "wire a cs = ?pre @ concat (map payload cs) @ []" by (simp add: wire_def)
  have l: "length ?pre = up4 (length a + 1) + up4 (length cs + 2)" by (simp add: length_pad0)
  show ?thesis using received_slots[OF ok, of ?pre "[]"] unfolding w[symmetric] l .
qed

subsection \<open>Accepted appends\<close>

lemma canAddArg_room:
  "mTypeTagCount m < MAX_TYPE_TAG_SIZE - 1 \<Longrightarrow> mArgBufferSize m + k \<le> MAX_ARG_BUFFER_SIZE \<Longrightarrow>
   canAddArg m k"
  by (simp add: canAddArg_def sz_def)

lemma fixed_ok:
  assumes wf: "msg_wf m" and tags: "mTypeTagCount m < MAX_TYPE_TAG_SIZE - 1"
    and room: "mArgBufferSize m + k \<le> MAX_ARG_BUFFER_SIZE" and len: "length bs = k"
  shows "\<exists>m'. (if \<not> canAddArg m k then Some (False, m)
               else appended (Option.bind (put_tag c m) (put_bytes bs k))) = Some (True, m')"
proof -
  from put_tag_ext[OF wf tags, of c] obtain m1
    where m1: "put_tag c m = Some m1" "extends m m1 [c] []" by blast
  then have w1: "msg_wf m1" and k1: "mArgBufferSize m1 + k \<le> MAX_ARG_BUFFER_SIZE"
    using room by (simp_all add: extends_def)
  from put_bytes_ok[OF w1 _ k1, of bs] len obtain m2 where "put_bytes bs k m1 = Some m2" by auto
  with m1 canAddArg_room[OF tags room] show ?thesis by (simp add: appended_def)
qed

lemma add_tag_only_ok:
  assumes wf: "msg_wf m" and tags: "mTypeTagCount m < MAX_TYPE_TAG_SIZE - 1"
  shows "\<exists>m'. add_tag_only c m = Some (True, m')"
proof -
  from put_tag_ext[OF wf tags, of c] obtain m1 where "put_tag c m = Some m1" by blast
  with tags show ?thesis by (simp add: add_tag_only_def appended_def)
qed

lemma add_four_ok:
  assumes wf: "msg_wf m" and tags: "mTypeTagCount m < MAX_TYPE_TAG_SIZE - 1"
    and room: "mArgBufferSize m + 4 \<le> MAX_ARG_BUFFER_SIZE"
  shows "\<exists>m'. add_four c b0 b1 b2 b3 m = Some (True, m')"
proof -
  from put_tag_ext[OF wf tags, of c] obtain m0
    where m0: "put_tag c m = Some m0" "extends m m0 [c] []" by blast
  then have w0: "msg_wf m0" and k0: "mArgBufferSize m0 = mArgBufferSize m"
    by (simp_all add: extends_def)
  from put_byte_ok[OF w0, of b0] k0 room obtain m1 where m1: "put_byte b0 m0 = Some m1" by auto
  from put_byte_ext[OF w0 m1] have w1: "msg_wf m1" and k1: "mArgBufferSize m1 = mArgBufferSize m + 1"
    using k0 by (simp_all add: extends_def)
  from put_byte_ok[OF w1, of b1] k1 room obtain m2 where m2: "put_byte b1 m1 = Some m2" by auto
  from put_byte_ext[OF w1 m2] have w2: "msg_wf m2" and k2: "mArgBufferSize m2 = mArgBufferSize m + 2"
    using k1 by (simp_all add: extends_def)
  from put_byte_ok[OF w2, of b2] k2 room obtain m3 where m3: "put_byte b2 m2 = Some m3" by auto
  from put_byte_ext[OF w2 m3] have w3: "msg_wf m3" and k3: "mArgBufferSize m3 = mArgBufferSize m + 3"
    using k2 by (simp_all add: extends_def)
  from put_byte_ok[OF w3, of b3] k3 room obtain m4 where m4: "put_byte b3 m3 = Some m4" by auto
  from m0 m1 m2 m3 m4 canAddArg_room[OF tags room] show ?thesis
    by (simp add: add_four_def appended_def)
qed

lemma addString_ok:
  assumes wf: "msg_wf m" and tags: "mTypeTagCount m < MAX_TYPE_TAG_SIZE - 1"
    and room: "mArgBufferSize m + up4 (length v + 1) \<le> MAX_ARG_BUFFER_SIZE"
  shows "\<exists>m'. addString v m = Some (True, m')"
proof -
  have ge: "length v + 1 \<le> up4 (length v + 1)" by (rule up4_ge)
  with room have small: "length v + 1 < 4294967293" by simp
  have al: "align4 (length v + 1) = up4 (length v + 1)" by (rule align4_up4[OF small])
  have can: "canAddArg m (align4 (length v + 1))"
    unfolding al by (rule canAddArg_room[OF tags room])
  from put_tag_ext[OF wf tags, of "CHR ''s''"] obtain m1
    where m1: "put_tag (CHR ''s'') m = Some m1" "extends m m1 [CHR ''s''] []" by blast
  then have w1: "msg_wf m1" and k1: "mArgBufferSize m1 + (length v + 1) \<le> MAX_ARG_BUFFER_SIZE"
    using room ge by (simp_all add: extends_def)
  from put_bytes_ok[OF w1 _ k1, of "v @ [NUL]"] obtain m2
    where m2: "put_bytes (v @ [NUL]) (length v + 1) m1 = Some m2" by auto
  from put_bytes_ext[OF w1 m2] have w2: "msg_wf m2" by (simp add: extends_def)
  from pad_args_ext[OF w2] obtain m3 where m3: "pad_args m2 = Some m3" by blast
  from can m1 m2 m3 show ?thesis by (simp add: addString_def Let_def appended_def)
qed

lemma addBlob_ok:
  assumes wf: "msg_wf m" and tags: "mTypeTagCount m < MAX_TYPE_TAG_SIZE - 1"
    and fit: "unat n \<le> length d"
    and room: "mArgBufferSize m + (4 + up4 (unat n)) \<le> MAX_ARG_BUFFER_SIZE"
  shows "\<exists>m'. addBlob d n m = Some (True, m')"
proof -
  have ge: "unat n \<le> up4 (unat n)" by (rule up4_ge)
  with room have small: "unat n < 4294967293" by simp
  have al: "align4 (unat n) = up4 (unat n)" by (rule align4_up4[OF small])
  have z: "sz (4 + up4 (unat n)) = 4 + up4 (unat n)" using room by (intro sz_id) simp
  have can: "canAddArg m (sz (4 + align4 (unat n)))"
    unfolding al z by (rule canAddArg_room[OF tags room])
  from put_tag_ext[OF wf tags, of "CHR ''b''"] obtain m1
    where m1: "put_tag (CHR ''b'') m = Some m1" "extends m m1 [CHR ''b''] []" by blast
  then have w1: "msg_wf m1" and k1: "mArgBufferSize m1 = mArgBufferSize m"
    by (simp_all add: extends_def)
  have l4: "4 \<le> length (le_bytes32 (swap_endian32 n))" by (simp add: le_bytes32_def)
  from put_bytes_ok[OF w1 l4] k1 room obtain m2
    where m2: "put_bytes (le_bytes32 (swap_endian32 n)) 4 m1 = Some m2" by auto
  from put_bytes_ext[OF w1 m2] have w2: "msg_wf m2" and k2: "mArgBufferSize m2 = mArgBufferSize m + 4"
    using k1 by (simp_all add: extends_def le_bytes32_def)
  have r2: "mArgBufferSize m2 + unat n \<le> MAX_ARG_BUFFER_SIZE" using k2 room ge by simp
  from put_bytes_ok[OF w2 fit r2] obtain m3 where m3: "put_bytes d (unat n) m2 = Some m3" by blast
  from put_bytes_ext[OF w2 m3] have w3: "msg_wf m3" by (simp add: extends_def)
  from pad_args_ext[OF w3] obtain m4 where m4: "pad_args m3 = Some m4" by blast
  from can m1 m2 m3 m4 show ?thesis by (simp add: addBlob_def Let_def appended_def)
qed

text \<open>
  Every append operation returns \<^verbatim>\<open>true\<close> when the tag count is below its limit and the wire
  form of the argument fits into the argument buffer.
\<close>

lemma call_accepted:
  assumes wf: "msg_wf m" and tags: "mTypeTagCount m < MAX_TYPE_TAG_SIZE - 1"
    and fit: "blob_fits c"
    and room: "mArgBufferSize m + length (payload c) \<le> MAX_ARG_BUFFER_SIZE"
  shows "\<exists>m'. call c m = Some (True, m')"
proof (cases c)
  case (AddInt v)
  with room have r: "mArgBufferSize m + 4 \<le> MAX_ARG_BUFFER_SIZE" by simp
  from fixed_ok[OF wf tags r, of "le_bytes32 (swap_endian32 v)" "CHR ''i''"] AddInt
  show ?thesis by (simp add: addInt_def le_bytes32_def)
next
  case (AddFloat v)
  with room have r: "mArgBufferSize m + 4 \<le> MAX_ARG_BUFFER_SIZE" by simp
  from fixed_ok[OF wf tags r, of "le_bytes32 (swap_endian32 v)" "CHR ''f''"] AddFloat
  show ?thesis by (simp add: addFloat_def le_bytes32_def)
next
  case (AddString v)
  from room have "mArgBufferSize m + up4 (length v + 1) \<le> MAX_ARG_BUFFER_SIZE"
    unfolding AddString length_payload_string .
  from addString_ok[OF wf tags this] AddString show ?thesis by simp
next
  case (AddBlob d n)
  with fit have f: "unat n \<le> length d" by simp
  have "unat n \<le> up4 (unat n)" by (rule up4_ge)
  with f have "length (payload (AddBlob d n)) = 4 + up4 (unat n)" by simp
  with room AddBlob have "mArgBufferSize m + (4 + up4 (unat n)) \<le> MAX_ARG_BUFFER_SIZE" by simp
  from addBlob_ok[OF wf tags f this] AddBlob show ?thesis by simp
next
  case (AddInt64 v)
  with room have r: "mArgBufferSize m + 8 \<le> MAX_ARG_BUFFER_SIZE" by simp
  from fixed_ok[OF wf tags r, of "le_bytes64 (swap_endian64 v)" "CHR ''h''"] AddInt64
  show ?thesis by (simp add: addInt64_def le_bytes64_def)
next
  case (AddDouble v)
  with room have r: "mArgBufferSize m + 8 \<le> MAX_ARG_BUFFER_SIZE" by simp
  from fixed_ok[OF wf tags r, of "le_bytes64 (swap_endian64 v)" "CHR ''d''"] AddDouble
  show ?thesis by (simp add: addDouble_def le_bytes64_def)
next
  case (AddTimetag tt)
  with room have r: "mArgBufferSize m + 8 \<le> MAX_ARG_BUFFER_SIZE" by simp
  from fixed_ok[OF wf tags r, of "le_bytes32 (swap_endian32 (seconds tt)) @
          le_bytes32 (swap_endian32 (fractions tt))" "CHR ''t''"] AddTimetag
  show ?thesis by (simp add: addTimetag_def le_bytes32_def)
next
  case AddTrue
  with add_tag_only_ok[OF wf tags] show ?thesis by (simp add: addTrue_def)
next
  case AddFalse
  with add_tag_only_ok[OF wf tags] show ?thesis by (simp add: addFalse_def)
next
  case AddNil
  with add_tag_only_ok[OF wf tags] show ?thesis by (simp add: addNil_def)
next
  case AddInfinitum
  with add_tag_only_ok[OF wf tags] show ?thesis by (simp add: addInfinitum_def)
next
  case (AddMidi p st d1 d2)
  with room have r: "mArgBufferSize m + 4 \<le> MAX_ARG_BUFFER_SIZE" by simp
  from add_four_ok[OF wf tags r] AddMidi show ?thesis by (simp add: addMidi_def)
next
  case (AddChar ch)
  with room have r: "mArgBufferSize m + 4 \<le> MAX_ARG_BUFFER_SIZE" by simp
  from add_four_ok[OF wf tags r] AddChar show ?thesis by (simp add: addChar_def)
next
  case (AddColor r' g b a)
  with room have r: "mArgBufferSize m + 4 \<le> MAX_ARG_BUFFER_SIZE" by simp
  from add_four_ok[OF wf tags r] AddColor show ?thesis by (simp add: addColor_def)
qed

lemma append_all_accepted:
  assumes "built m a pre" and "length pre + length cs \<le> MAX_TYPE_TAG_SIZE - 1"
    and "length (concat (map payload pre)) + length (concat (map payload cs)) \<le> MAX_ARG_BUFFER_SIZE"
    and "\<forall>c\<in>set cs. blob_fits c"
  shows "\<exists>m'. append_all cs m = Some m'"
  using assms
proof (induction cs arbitrary: m pre)
  case Nil
  then show ?case by simp
next
  case (Cons c cs)
  from Cons.prems(1) have wf: "msg_wf m" and tc: "mTypeTagCount m = length pre"
    and bs: "mArgBufferSize m = length (concat (map payload pre))"
    by (simp_all add: built_def)
  have tags: "mTypeTagCount m < MAX_TYPE_TAG_SIZE - 1" using tc Cons.prems(2) by simp
  have fit: "blob_fits c" using Cons.prems(4) by simp
  have room: "mArgBufferSize m + length (payload c) \<le> MAX_ARG_BUFFER_SIZE"
    using bs Cons.prems(3) by simp
  from call_accepted[OF wf tags fit room] obtain m1 where c: "call c m = Some (True, m1)" by blast
  from built_step[OF Cons.prems(1) c] have b1: "built m1 a (pre @ [c])" .
  have "\<exists>m'. append_all cs m1 = Some m'"
  proof (rule Cons.IH[OF b1])
    show "length (pre @ [c]) + length cs \<le> MAX_TYPE_TAG_SIZE - 1" using Cons.prems(2) by simp
    show "length (concat (map payload (pre @ [c]))) + length (concat (map payload cs)) \<le> MAX_ARG_BUFFER_SIZE"
      using Cons.prems(3) by simp
    show "\<forall>c\<in>set cs. blob_fits c" using Cons.prems(4) by simp
  qed
  with c show ?case by simp
qed

lemma assemble_accepted:
  assumes len: "length a < MAX_ADDRESS_SIZE" and cnt: "length cs \<le> MAX_TYPE_TAG_SIZE - 1"
    and room: "length (concat (map payload cs)) \<le> MAX_ARG_BUFFER_SIZE"
    and fits: "\<forall>c\<in>set cs. blob_fits c"
  shows "\<exists>m. assemble a cs = Some m"
proof -
  have arr: "length (mAddress msg_clear) = MAX_ADDRESS_SIZE" by (simp add: msg_clear_def)
  from setAddress_accept[OF len arr] obtain m0 where s: "setAddress a msg_clear = Some (True, m0)"
    by blast
  from setAddress_built[OF s] have b0: "built m0 a []" .
  from append_all_accepted[OF b0, of cs] cnt room fits
  obtain m where "append_all cs m0 = Some m" by auto
  with s show ?thesis by (simp add: assemble_def)
qed

subsection \<open>The round trip\<close>

text \<open>
  C1.  A message is assembled on a fresh builder by \<^verbatim>\<open>setAddress\<close> and a sequence of append
  operations.  Its address starts with \<open>/\<close> and fits the address buffer; the address and the
  string arguments are C strings; every blob has as many bytes as its size says; there are
  at most 63 arguments, their wire forms fit the argument buffer and the whole message fits
  the output buffer.  Then \<^verbatim>\<open>setAddress\<close> and every append operation return \<^verbatim>\<open>true\<close>, \<^verbatim>\<open>build\<close>
  returns a size other than zero, and \<^verbatim>\<open>parse\<close> of the bytes written, with that size, returns
  \<^verbatim>\<open>true\<close>; in the view the address pointer refers to the original address, the type-tag
  pointer to the sequence of the tags of the calls, there are as many arguments as calls, and
  every argument reads back as the value that was appended: integers, floats, doubles,
  timetags, MIDI bytes, characters and colours with all their bits, strings with all their
  characters, blobs with their size and all their bytes.
\<close>

theorem build_parse_roundtrip:
  assumes a: "a \<noteq> []" "hd a = CHR ''/''" "NUL \<notin> set a" and len: "length a < MAX_ADDRESS_SIZE"
    and args: "\<forall>c\<in>set cs. c_string_arg c \<and> blob_fits c"
    and cnt: "length cs \<le> MAX_TYPE_TAG_SIZE - 1"
    and room: "length (concat (map payload cs)) \<le> MAX_ARG_BUFFER_SIZE"
    and total: "up4 (length a + 1) + up4 (length cs + 2) + length (concat (map payload cs)) \<le> maxSize"
  shows "\<exists>m n out v. assemble a cs = Some m \<and> build m maxSize = Some (n, out) \<and> n \<noteq> 0 \<and>
             n = length out \<and> parse out n = Some (True, v) \<and>
             deref out (address v) = Some a \<and>
             deref out (typeTags v) = Some (map tag_of cs) \<and>
             argCount v = length cs \<and>
             map (received out) (mArgs v) = map (Some \<circ> sent) cs"
proof -
  from args have fits: "\<forall>c\<in>set cs. blob_fits c" and strs: "\<forall>c\<in>set cs. c_string_arg c" by simp_all
  from assemble_accepted[OF len cnt room fits] obtain m where asm: "assemble a cs = Some m" by blast
  from assemble_built[OF asm] have b: "built m a cs" .
  have l: "length (wire a cs) \<le> maxSize" unfolding length_wire[OF fits] by (rule total)
  from build_ok[OF b l] have bld: "build m maxSize = Some (length (wire a cs), wire a cs)" .
  have "0 < up4 (length a + 1)" using up4_ge[of "length a + 1"] by simp
  then have n: "length (wire a cs) \<noteq> 0" unfolding length_wire[OF fits] by simp
  let ?v = "\<lparr>address = in_buffer 0, typeTags = in_buffer (up4 (length a + 1) + 1),
             mArgs = slots cs (up4 (length a + 1) + up4 (length cs + 2))\<rparr>"
  have p: "parse (wire a cs) (length (wire a cs)) = Some (True, ?v)"
    by (rule parse_built[OF b a strs])
  have d: "deref (wire a cs) (address ?v) = Some a"
    "deref (wire a cs) (typeTags ?v) = Some (map tag_of cs)"
    using deref_wire[OF a(3), of cs] by simp_all
  have c: "argCount ?v = length cs" by (simp add: argCount_def length_slots)
  have r: "map (received (wire a cs)) (mArgs ?v) = map (Some \<circ> sent) cs"
    using received_wire[OF args, of a] by simp
  from asm bld n p d c r show ?thesis by blast
qed

theorem build_parse_roundtrip_witness:
  "\<exists>m n out v.
     assemble ''/a'' [AddInt 5, AddFloat 1, AddString ''hi'', AddBlob ''xyz'' 3, AddInt64 7,
       AddDouble 9, AddTimetag \<lparr>seconds = 1, fractions = 2\<rparr>, AddTrue, AddFalse, AddNil,
       AddInfinitum, AddMidi 1 2 3 4, AddChar (CHR ''c''), AddColor 1 2 3 4] = Some m \<and>
     build m MAX_MESSAGE_SIZE = Some (n, out) \<and> n \<noteq> 0 \<and>
     parse out n = Some (True, v) \<and> deref out (address v) = Some ''/a'' \<and>
     deref out (typeTags v) = Some ''ifsbhdtTFNImcr'' \<and>
     map (received out) (mArgs v) =
       [Some (AddInt 5), Some (AddFloat 1), Some (AddString ''hi''), Some (AddBlob ''xyz'' 3),
        Some (AddInt64 7), Some (AddDouble 9), Some (AddTimetag \<lparr>seconds = 1, fractions = 2\<rparr>),
        Some AddTrue, Some AddFalse, Some AddNil, Some AddInfinitum, Some (AddMidi 1 2 3 4),
        Some (AddChar (CHR ''c'')), Some (AddColor 1 2 3 4)]"
proof -
  let ?cs = "[AddInt 5, AddFloat 1, AddString ''hi'', AddBlob ''xyz'' 3, AddInt64 7,
       AddDouble 9, AddTimetag \<lparr>seconds = 1, fractions = 2\<rparr>, AddTrue, AddFalse, AddNil,
       AddInfinitum, AddMidi 1 2 3 4, AddChar (CHR ''c''), AddColor 1 2 3 4]"
  have u: "unat (3 :: 32 word) = 3" by simp
  have pl: "length (concat (map payload ?cs)) = 56" by (simp add: u up4_def)
  have a: "''/a'' \<noteq> []" "hd ''/a'' = CHR ''/''" "NUL \<notin> set ''/a''" "length ''/a'' < MAX_ADDRESS_SIZE"
    by simp_all
  have args: "\<forall>c\<in>set ?cs. c_string_arg c \<and> blob_fits c" by (simp add: u)
  have cnt: "length ?cs \<le> MAX_TYPE_TAG_SIZE - 1" by simp
  have room: "length (concat (map payload ?cs)) \<le> MAX_ARG_BUFFER_SIZE" unfolding pl by simp
  have total: "up4 (length ''/a'' + 1) + up4 (length ?cs + 2) + length (concat (map payload ?cs))
                 \<le> MAX_MESSAGE_SIZE"
    unfolding pl by (simp add: up4_def)
  from build_parse_roundtrip[OF a args cnt room total]
  obtain m n out v where "assemble ''/a'' ?cs = Some m" "build m MAX_MESSAGE_SIZE = Some (n, out)"
    "n \<noteq> 0" "parse out n = Some (True, v)" "deref out (address v) = Some ''/a''"
    "deref out (typeTags v) = Some (map tag_of ?cs)"
    "map (received out) (mArgs v) = map (Some \<circ> sent) ?cs"
    by blast
  then show ?thesis by (intro exI[of _ m] exI[of _ n] exI[of _ out] exI[of _ v]) (simp add: u)
qed

subsection \<open>Reads stay inside the buffer\<close>

lemma scan_nul_safe:
  "size' \<le> length buffer \<Longrightarrow>
   \<exists>q. scan_nul buffer size' pos = Some q \<and> pos \<le> q \<and> (q < size' \<longrightarrow> buffer ! q = NUL)"
proof (induction buffer size' pos rule: scan_nul.induct)
  case (1 buffer size' pos)
  show ?case
  proof (cases "pos < size'")
    case False
    then show ?thesis by (subst scan_nul.simps) simp
  next
    case True
    with "1.prems" have p: "peek buffer size' pos = Some (buffer ! pos)" by (simp add: peek_def)
    show ?thesis
    proof (cases "buffer ! pos = NUL")
      case n: True
      with True p show ?thesis by (subst scan_nul.simps) simp
    next
      case n: False
      from "1.IH"[OF True p n "1.prems"] obtain q
        where "scan_nul buffer size' (Suc pos) = Some q" "Suc pos \<le> q"
          "q < size' \<longrightarrow> buffer ! q = NUL" by blast
      with True p n show ?thesis by (subst scan_nul.simps) auto
    qed
  qed
qed

lemma peeks_safe:
  "size' \<le> length buffer \<Longrightarrow> pos + k \<le> size' \<Longrightarrow> \<exists>bs. peeks buffer size' pos k = Some bs"
  by (simp add: peeks_def)

lemma peek_safe:
  "size' \<le> length buffer \<Longrightarrow> i < size' \<Longrightarrow> \<exists>c. peek buffer size' i = Some c"
  by (simp add: peek_def)

lemma blob_in_bounds_none:
  "blobData a = None \<Longrightarrow> blobSize a = None \<Longrightarrow> blob_in_bounds size' a"
  by (simp add: blob_in_bounds_def)

lemma parse_arg_sS:
  "t = CHR ''s'' \<or> t = CHR ''S'' \<Longrightarrow>
   parse_arg buffer size' pos t =
     (case scan_nul buffer size' pos of
           None \<Rightarrow> None
         | Some p \<Rightarrow>
             if p \<ge> size' then Some None
             else Some (Some (align4 (p + 1), (empty_slot t)\<lparr>sptr := Some pos\<rparr>)))"
  unfolding parse_arg_def empty_slot_def Let_def by auto

lemma parse_arg_other:
  "t \<notin> set ''ifsSbhdtmcr'' \<Longrightarrow> parse_arg buffer size' pos t = Some (Some (pos, empty_slot t))"
  unfolding parse_arg_def empty_slot_def Let_def by simp

lemma unat_negative:
  assumes "\<not> 0 \<le> sint (n :: 32 word)"
  shows "2147483648 \<le> unat n"
proof (rule ccontr)
  assume "\<not> 2147483648 \<le> unat n"
  then have "unat n < 2 ^ 31" by simp
  then have "take_bit 31 (unat n) = unat n" by (rule take_bit_nat_eq_self)
  then have "unat (take_bit 31 n) = unat n" by (simp add: unsigned_take_bit_eq)
  then have "take_bit 31 n = n" by (rule word_unat_eq_iff[THEN iffD2])
  then have "bit n 31 = bit (take_bit 31 n) 31" by simp
  then have "\<not> bit n 31" by (simp add: bit_take_bit_iff)
  with assms show False using bit_last_iff[of n] by simp
qed

lemma empty_slot_fields [simp]:
  "blobData (empty_slot t) = None" "blobSize (empty_slot t) = None" "sptr (empty_slot t) = None"
  "type (empty_slot t) = t" "val (empty_slot t) = Unset"
  by (simp_all add: empty_slot_def)

lemma parse_arg_blob_safe:
  assumes le: "size' \<le> length buffer" and small: "size' < 2147483648"
  shows "\<exists>r. parse_arg buffer size' pos CHR ''b'' = Some r \<and>
             (\<forall>pos' a. r = Some (pos', a) \<longrightarrow> (blob_in_bounds size' a \<or> negative_length a))"
proof (cases "pos + 4 > size'")
  case True
  then show ?thesis by (simp add: parse_arg_b)
next
  case False
  with le obtain bs where bs: "peeks buffer size' pos 4 = Some bs"
    using peeks_safe[of size' buffer pos 4] by auto
  let ?n = "swap_endian32 (le_word32 bs)"
  show ?thesis
  proof (cases "sz (pos + 4 + unat ?n) > size'")
    case True
    with False bs show ?thesis by (simp add: parse_arg_b Let_def)
  next
    case ok: False
    let ?a = "(empty_slot CHR ''b'')\<lparr>blobData := Some (pos + 4), blobSize := Some ?n\<rparr>"
    have "blob_in_bounds size' ?a \<or> negative_length ?a"
    proof (cases "0 \<le> sint ?n")
      case True
      then have "unat ?n < 2147483648" by (rule nonneg_unat)
      with False small have "sz (pos + 4 + unat ?n) = pos + 4 + unat ?n" by (intro sz_id) simp
      with ok False True show ?thesis by (simp add: blob_in_bounds_def)
    next
      case False
      then show ?thesis by (simp add: negative_length_def)
    qed
    with False bs ok show ?thesis by (simp add: parse_arg_b Let_def)
  qed
qed

lemma parse_arg_safe:
  assumes le: "size' \<le> length buffer" and small: "size' < 2147483648"
  shows "\<exists>r. parse_arg buffer size' pos t = Some r \<and>
             (\<forall>pos' a. r = Some (pos', a) \<longrightarrow> (blob_in_bounds size' a \<or> negative_length a))"
proof -
  have four: "\<exists>bs. peeks buffer size' pos 4 = Some bs" if "\<not> pos + 4 > size'"
    using that le peeks_safe[of size' buffer pos 4] by simp
  have eight: "\<exists>bs. peeks buffer size' pos 8 = Some bs" if "\<not> pos + 8 > size'"
    using that le peeks_safe[of size' buffer pos 8] by simp
  consider (i) "t = CHR ''i''" | (f) "t = CHR ''f''" | (s) "t = CHR ''s'' \<or> t = CHR ''S''"
    | (b) "t = CHR ''b''" | (h) "t = CHR ''h''" | (d) "t = CHR ''d''" | (tt) "t = CHR ''t''"
    | (m) "t = CHR ''m''" | (c) "t = CHR ''c''" | (r) "t = CHR ''r''"
    | (o) "t \<notin> set ''ifsSbhdtmcr''"
    by auto
  then show ?thesis
  proof cases
    case i
    show ?thesis unfolding i parse_arg_i using four by (auto simp: blob_in_bounds_none)
  next
    case f
    show ?thesis unfolding f parse_arg_f using four by (auto simp: blob_in_bounds_none)
  next
    case s
    from scan_nul_safe[OF le, of pos] obtain q where "scan_nul buffer size' pos = Some q" by blast
    then show ?thesis unfolding parse_arg_sS[OF s] by (auto simp: blob_in_bounds_none)
  next
    case b
    show ?thesis unfolding b by (rule parse_arg_blob_safe[OF le small])
  next
    case h
    show ?thesis unfolding h parse_arg_h using eight by (auto simp: blob_in_bounds_none)
  next
    case d
    show ?thesis unfolding d parse_arg_d using eight by (auto simp: blob_in_bounds_none)
  next
    case tt
    have "\<exists>bs. peeks buffer size' pos 4 = Some bs" "\<exists>bs. peeks buffer size' (pos + 4) 4 = Some bs"
      if "\<not> pos + 8 > size'"
      using that le peeks_safe[of size' buffer pos 4] peeks_safe[of size' buffer "pos + 4" 4]
      by simp_all
    then show ?thesis unfolding tt parse_arg_t by (auto simp: blob_in_bounds_none)
  next
    case m
    show ?thesis unfolding m parse_arg_m using four by (auto simp: blob_in_bounds_none)
  next
    case c
    have "\<exists>x. peek buffer size' (pos + 3) = Some x" if "\<not> pos + 4 > size'"
      using that le peek_safe[of size' buffer "pos + 3"] by simp
    then show ?thesis unfolding c parse_arg_c by (auto simp: blob_in_bounds_none)
  next
    case r
    show ?thesis unfolding r parse_arg_r using four by (auto simp: blob_in_bounds_none)
  next
    case o
    show ?thesis unfolding parse_arg_other[OF o] by (simp add: blob_in_bounds_none)
  qed
qed

lemma parse_args_safe:
  assumes le: "size' \<le> length buffer" and small: "size' < 2147483648"
    and nul: "\<exists>q. ty \<le> q \<and> q < size' \<and> buffer ! q = NUL"
    and inv: "\<forall>a\<in>set (mArgs v). (blob_in_bounds size' a \<or> negative_length a)"
  shows "\<exists>ok v'. parse_args buffer size' ty pos v = Some (ok, v') \<and>
           (\<forall>a\<in>set (mArgs v'). (blob_in_bounds size' a \<or> negative_length a))"
  using assms
proof (induction buffer size' ty pos v rule: parse_args.induct)
  case (1 buffer size' ty pos v)
  note le = "1.prems"(1) and small = "1.prems"(2)
  from "1.prems"(3) obtain q where q: "ty \<le> q" "q < size'" "buffer ! q = NUL" by blast
  then have pk: "peek buffer size' ty = Some (buffer ! ty)" using le by (simp add: peek_def)
  show ?case
  proof (cases "buffer ! ty \<noteq> NUL \<and> length (mArgs v) < MAX_ARGS")
    case False
    then show ?thesis
      using parse_args_stop[OF pk, of v pos] "1.prems"(4) by auto
  next
    case True
    from parse_arg_safe[OF le small, of pos "buffer ! ty"] obtain r
      where r: "parse_arg buffer size' pos (buffer ! ty) = Some r"
        and b: "\<forall>pos' a. r = Some (pos', a) \<longrightarrow> (blob_in_bounds size' a \<or> negative_length a)" by blast
    show ?thesis
    proof (cases r)
      case None
      with parse_args_fail[OF pk _ _ r[unfolded None]] True "1.prems"(4) show ?thesis by auto
    next
      case (Some pa)
      obtain pos' arg where pa: "pa = (pos', arg)" by (cases pa)
      from True q have "ty \<noteq> q" by auto
      with q have n': "\<exists>q. Suc ty \<le> q \<and> q < size' \<and> buffer ! q = NUL" by (intro exI[of _ q]) simp
      from b Some pa have "(blob_in_bounds size' arg \<or> negative_length arg)" by simp
      with "1.prems"(4)
      have i': "\<forall>a\<in>set (mArgs (v\<lparr>mArgs := mArgs v @ [arg]\<rparr>)). (blob_in_bounds size' a \<or> negative_length a)" by simp
      from "1.IH"[OF pk True r[unfolded Some pa] refl refl le small n' i']
      have "\<exists>ok v'. parse_args buffer size' (Suc ty) pos' (v\<lparr>mArgs := mArgs v @ [arg]\<rparr>) = Some (ok, v') \<and>
               (\<forall>a\<in>set (mArgs v'). (blob_in_bounds size' a \<or> negative_length a))" .
      then show ?thesis
        using parse_args_step[OF pk _ _ r[unfolded Some pa], of v] True by simp
    qed
  qed
qed

lemma parse_tags_safe:
  assumes le: "size' \<le> length buffer" and small: "size' < 2147483648"
    and inv: "mArgs v = []"
  shows "\<exists>ok v'. parse_tags buffer size' pos v = Some (ok, v') \<and>
           (\<forall>a\<in>set (mArgs v'). (blob_in_bounds size' a \<or> negative_length a))"
proof (cases "pos < size'")
  case False
  then show ?thesis using inv by (auto simp: parse_tags_no_tags)
next
  case True
  with le have pk: "peek buffer size' pos = Some (buffer ! pos)" by (simp add: peek_def)
  show ?thesis
  proof (cases "buffer ! pos = CHR '',''")
    case False
    with pk show ?thesis using inv by (auto simp: parse_tags_no_tags)
  next
    case comma: True
    note eq = parse_tags_comma[OF True pk[unfolded comma], of v]
    from scan_nul_safe[OF le, of pos] obtain q
      where q: "scan_nul buffer size' pos = Some q" "pos \<le> q" "q < size' \<longrightarrow> buffer ! q = NUL"
      by blast
    show ?thesis
    proof (cases "q \<ge> size'")
      case True
      with eq q inv show ?thesis by auto
    next
      case False
      with q have n: "buffer ! q = NUL" by simp
      with comma have "q \<noteq> pos" by auto
      with q False n have nul: "\<exists>q. pos + 1 \<le> q \<and> q < size' \<and> buffer ! q = NUL"
        by (intro exI[of _ q]) simp
      have i: "\<forall>a\<in>set (mArgs (v\<lparr>typeTags := in_buffer (pos + 1)\<rparr>)). (blob_in_bounds size' a \<or> negative_length a)"
        using inv by simp
      from parse_args_safe[OF le small nul i, of "align4 (q + 1)"] eq q False
      show ?thesis by auto
    qed
  qed
qed

lemma parse_safe:
  assumes le: "size' \<le> length buffer" and small: "size' < 2147483648"
  shows "\<exists>ok v. parse buffer size' = Some (ok, v) \<and> (\<forall>a\<in>set (mArgs v). (blob_in_bounds size' a \<or> negative_length a))"
proof (cases "size' < 4")
  case True
  then show ?thesis by (auto simp: parse_short view_clear_def)
next
  case s4: False
  with le have "0 < size'" "0 < length buffer" by linarith+
  then have pk: "peek buffer size' 0 = Some (buffer ! 0)" by (simp add: peek_def)
  show ?thesis
  proof (cases "buffer ! 0 = CHR ''/''")
    case False
    with parse_bad_start[OF s4 pk] show ?thesis by (auto simp: view_clear_def)
  next
    case True
    note eq = parse_slash[OF s4 pk[unfolded True]]
    from scan_nul_safe[OF le, of 0] obtain p where p: "scan_nul buffer size' 0 = Some p" by blast
    show ?thesis
    proof (cases "p \<ge> size'")
      case True
      with eq p show ?thesis by (auto simp: view_clear_def)
    next
      case False
      have "mArgs (view_clear\<lparr>address := in_buffer 0\<rparr>) = []" by (simp add: view_clear_def)
      from parse_tags_safe[OF le small this, of "align4 (p + 1)"] eq p False
      show ?thesis by auto
    qed
  qed
qed

text \<open>
  For a buffer that holds at least \<open>size'\<close> bytes (and is an object of the target, shorter
  than \<open>2 ^ 31\<close> bytes), \<^verbatim>\<open>parse\<close> returns: no read of the parser itself falls outside
  \<open>[0, size')\<close>, since any such read would make the result \<^const>\<open>None\<close>.  Every blob slot
  of the resulting view lies inside the buffer, unless its declared length is negative.
\<close>

lemma parse_total:
  assumes "size' \<le> length buffer" and "length buffer < 2 ^ 31"
  shows "\<exists>ok v. parse buffer size' = Some (ok, v) \<and>
           (\<forall>a\<in>set (mArgs v). blob_in_bounds size' a \<or> negative_length a)"
  using assms by (intro parse_safe) simp_all

lemma be_one: "swap_endian32 (le_word32 [NUL, NUL, NUL, CHR 0x01]) = 1"
  by (simp add: le_word32_def word_of_byte_def swap_endian32_def)

text \<open>
  After a blob the position is rounded up to a multiple of four and can pass the end of a
  buffer whose size is not such a multiple, also for a length that fits: here it is 16 in a
  buffer of 13 bytes.  The bounds checks of the following arguments keep the parser from
  reading there.
\<close>

lemma parse_arg_blob_rounding:
  "parse_arg (''/a'' @ [NUL, NUL] @ '',b'' @ [NUL, NUL] @ [NUL, NUL, NUL, CHR 0x01] @ ''x'') 13 8
     (CHR ''b'') =
   Some (Some (16, \<lparr>type = CHR ''b'', val = Unset, sptr = None, blobData = Some 12,
                       blobSize = Some 1\<rparr>))"
  by (simp add: parse_arg_def peeks_def be_one align4_def sz_def)

lemma be_minus_four: "swap_endian32 (le_word32 [CHR 0xFF, CHR 0xFF, CHR 0xFF, CHR 0xFC]) = - 4"
  by (simp add: le_word32_def word_of_byte_def swap_endian32_def)

text \<open>
  C2 fails for a blob with a negative declared length.  \<^verbatim>\<open>parse\<close> itself reads no byte outside
  the buffer, but the check \<^verbatim>\<open>pos + static_cast<size_t>(blobSize) > size\<close> of the blob branch
  does not hold for every declared length: for the length \<open>-4\<close> the sum wraps around to
  \<open>pos - 4\<close> and the check passes.  On the 12 bytes \<open>/a\<close>, two \<^verbatim>\<open>NUL\<close>, \<open>,b\<close>, two \<^verbatim>\<open>NUL\<close>,
  \<open>FF FF FF FC\<close> the parser returns \<^verbatim>\<open>true\<close> with a blob whose reference is one past the end of
  the buffer and whose size is \<open>-4\<close>, which is not a range of the buffer; with the tags \<open>,bi\<close>
  the position has moved back and the four bytes of the length are decoded once more, as
  the integer that follows.
\<close>

theorem parse_blob_negative_length:
  "parse (''/a'' @ [NUL, NUL] @ '',b'' @ [NUL, NUL] @ [CHR 0xFF, CHR 0xFF, CHR 0xFF, CHR 0xFC]) 12 =
     Some (True, \<lparr>address = in_buffer 0, typeTags = in_buffer 5,
       mArgs = [\<lparr>type = CHR ''b'', val = Unset, sptr = None, blobData = Some 12,
                 blobSize = Some (- 4)\<rparr>]\<rparr>) \<and>
   \<not> blob_in_bounds 12
       \<lparr>type = CHR ''b'', val = Unset, sptr = None, blobData = Some 12, blobSize = Some (- 4)\<rparr> \<and>
   parse (''/a'' @ [NUL, NUL] @ '',bi'' @ [NUL] @ [CHR 0xFF, CHR 0xFF, CHR 0xFF, CHR 0xFC]) 12 =
     Some (True, \<lparr>address = in_buffer 0, typeTags = in_buffer 5,
       mArgs = [\<lparr>type = CHR ''b'', val = Unset, sptr = None, blobData = Some 12,
                 blobSize = Some (- 4)\<rparr>,
                \<lparr>type = CHR ''i'', val = Int32 (- 4), sptr = None, blobData = None,
                 blobSize = None\<rparr>]\<rparr>)"
  by (simp add: eval_simps be_minus_four unsigned_minus_1_eq_mask mask_eq_exp_minus_1
        blob_in_bounds_def)

subsection \<open>The arguments decoded by the loop\<close>

lemma parse_args_inv:
  assumes "parse_args buffer size' ty pos v = Some (ok, v')"
  shows "\<exists>t. peek buffer size' ty = Some t \<and>
           (if t \<noteq> NUL \<and> length (mArgs v) < MAX_ARGS
            then (parse_arg buffer size' pos t = Some None \<and> \<not> ok \<and> v' = v) \<or>
                 (\<exists>pos' arg. parse_arg buffer size' pos t = Some (Some (pos', arg)) \<and>
                    parse_args buffer size' (Suc ty) pos' (v\<lparr>mArgs := mArgs v @ [arg]\<rparr>) = Some (ok, v'))
            else ok \<and> v' = v)"
proof (cases "peek buffer size' ty")
  case None
  with assms show ?thesis by (subst (asm) parse_args.simps) simp
next
  case (Some t)
  show ?thesis
  proof (cases "t \<noteq> NUL \<and> length (mArgs v) < MAX_ARGS")
    case False
    with assms Some parse_args_stop[OF Some, of v pos] show ?thesis by auto
  next
    case True
    show ?thesis
    proof (cases "parse_arg buffer size' pos t")
      case None
      with assms Some True show ?thesis by (subst (asm) parse_args.simps) simp
    next
      case r: (Some r)
      show ?thesis
      proof (cases r)
        case None
        with assms Some True r parse_args_fail[OF Some _ _ r[unfolded None], of v] show ?thesis
          by auto
      next
        case pa: (Some pa)
        obtain pos' arg where p: "pa = (pos', arg)" by (cases pa)
        with assms Some True r pa parse_args_step[OF Some _ _ r[unfolded pa p], of v] show ?thesis
          by auto
      qed
    qed
  qed
qed

lemma decoded_Suc:
  "peek buffer size' ty = Some t \<Longrightarrow> t \<noteq> NUL \<Longrightarrow>
   parse_arg buffer size' pos t = Some (Some (pos', arg)) \<Longrightarrow>
   decoded buffer size' (Suc ty) pos' k = Some (pos'', args) \<Longrightarrow>
   decoded buffer size' ty pos (Suc k) = Some (pos'', arg # args)"
  by simp

lemma decoded_length:
  "decoded buffer size' ty pos k = Some (pos', args) \<Longrightarrow> length args = k"
proof (induction k arbitrary: ty pos args)
  case 0
  then show ?case by simp
next
  case (Suc k)
  then show ?case
    by (auto split: option.splits if_splits)
qed

text \<open>While fewer than 64 slots are filled, the loop decodes the tags one by one.\<close>

lemma parse_args_decoded:
  "decoded buffer size' ty pos k = Some (pos', args) \<Longrightarrow> length (mArgs v) + k \<le> MAX_ARGS \<Longrightarrow>
   parse_args buffer size' ty pos v =
     parse_args buffer size' (ty + k) pos' (v\<lparr>mArgs := mArgs v @ args\<rparr>)"
proof (induction k arbitrary: ty pos args v)
  case 0
  then show ?case by simp
next
  case (Suc k)
  from Suc.prems(1) obtain t where t: "peek buffer size' ty = Some t" "t \<noteq> NUL"
    by (auto split: option.splits if_splits)
  with Suc.prems(1) obtain p1 a1 rest where pa: "parse_arg buffer size' pos t = Some (Some (p1, a1))"
    and d: "decoded buffer size' (Suc ty) p1 k = Some (pos', rest)" and ar: "args = a1 # rest"
    by (auto split: option.splits if_splits)
  have st: "parse_args buffer size' ty pos v =
      parse_args buffer size' (Suc ty) p1 (v\<lparr>mArgs := mArgs v @ [a1]\<rparr>)"
    by (rule parse_args_step[OF t(1) t(2) _ pa]) (use Suc.prems(2) in simp)
  have "length (mArgs (v\<lparr>mArgs := mArgs v @ [a1]\<rparr>)) + k \<le> MAX_ARGS" using Suc.prems(2) by simp
  from Suc.IH[OF d this] st ar show ?case by simp
qed

text \<open>When the loop returns \<^verbatim>\<open>false\<close>, the slots decoded before the failing argument are kept.\<close>

lemma parse_args_failed:
  assumes "parse_args buffer size' ty pos v = Some (False, v')"
  shows "\<exists>k pos' t args. decoded buffer size' ty pos k = Some (pos', args) \<and>
           v' = v\<lparr>mArgs := mArgs v @ args\<rparr> \<and> length (mArgs v') < MAX_ARGS \<and>
           peek buffer size' (ty + k) = Some t \<and> t \<noteq> NUL \<and>
           parse_arg buffer size' pos' t = Some None"
  using assms
proof (induction buffer size' ty pos v rule: parse_args.induct)
  case (1 buffer size' ty pos v)
  from parse_args_inv[OF "1.prems"] obtain t where t: "peek buffer size' ty = Some t"
    and inv: "if t \<noteq> NUL \<and> length (mArgs v) < MAX_ARGS
            then (parse_arg buffer size' pos t = Some None \<and> \<not> False \<and> v' = v) \<or>
                 (\<exists>pos' arg. parse_arg buffer size' pos t = Some (Some (pos', arg)) \<and>
                    parse_args buffer size' (Suc ty) pos' (v\<lparr>mArgs := mArgs v @ [arg]\<rparr>) = Some (False, v'))
            else False \<and> v' = v" by blast
  then have go: "t \<noteq> NUL" "length (mArgs v) < MAX_ARGS" by (auto split: if_splits)
  show ?case
  proof (cases "parse_arg buffer size' pos t = Some None")
    case True
    with inv go have "v' = v" by auto
    with True t go show ?thesis
      by (intro exI[of _ 0] exI[of _ pos] exI[of _ t] exI[of _ "[]"]) simp
  next
    case False
    with inv go obtain p1 a1 where pa: "parse_arg buffer size' pos t = Some (Some (p1, a1))"
      and rec: "parse_args buffer size' (Suc ty) p1 (v\<lparr>mArgs := mArgs v @ [a1]\<rparr>) = Some (False, v')"
      by auto
    from "1.IH"[OF t _ pa refl refl rec] go
    obtain k pos' t' args where d: "decoded buffer size' (Suc ty) p1 k = Some (pos', args)"
      and v': "v' = v\<lparr>mArgs := mArgs v @ [a1]\<rparr>\<lparr>mArgs := mArgs (v\<lparr>mArgs := mArgs v @ [a1]\<rparr>) @ args\<rparr>"
      and l: "length (mArgs v') < MAX_ARGS"
      and pk: "peek buffer size' (Suc ty + k) = Some t'" "t' \<noteq> NUL"
      and f: "parse_arg buffer size' pos' t' = Some None" by auto
    have d': "decoded buffer size' ty pos (Suc k) = Some (pos', a1 # args)"
      by (rule decoded_Suc[OF t go(1) pa d])
    from v' have "v' = v\<lparr>mArgs := mArgs v @ a1 # args\<rparr>" by simp
    with d' l pk f show ?thesis
      by (intro exI[of _ "Suc k"] exI[of _ pos'] exI[of _ t'] exI[of _ "a1 # args"]) simp
  qed
qed

lemma scan_nul_tags:
  "scan_nul buffer size' pos = Some q \<Longrightarrow>
   pos \<le> q \<and> (\<forall>i. pos \<le> i \<and> i < q \<longrightarrow> (\<exists>c. peek buffer size' i = Some c \<and> c \<noteq> NUL)) \<and>
   (q < size' \<longrightarrow> peek buffer size' q = Some NUL)"
proof (induction buffer size' pos rule: scan_nul.induct)
  case (1 buffer size' pos)
  show ?case
  proof (cases "pos < size'")
    case False
    with "1.prems" have "q = pos" by (subst (asm) scan_nul.simps) simp
    with False show ?thesis by auto
  next
    case True
    with "1.prems" obtain c where c: "peek buffer size' pos = Some c"
      by (subst (asm) scan_nul.simps) (auto split: option.splits)
    show ?thesis
    proof (cases "c = NUL")
      case n: True
      with "1.prems" True c have "q = pos" by (subst (asm) scan_nul.simps) simp
      with c n show ?thesis by auto
    next
      case n: False
      with "1.prems" True c have r: "scan_nul buffer size' (Suc pos) = Some q"
        by (subst (asm) scan_nul.simps) simp
      from "1.IH"[OF True c n r]
      have ih: "Suc pos \<le> q" "\<forall>i. Suc pos \<le> i \<and> i < q \<longrightarrow> (\<exists>c. peek buffer size' i = Some c \<and> c \<noteq> NUL)"
        "q < size' \<longrightarrow> peek buffer size' q = Some NUL" by simp_all
      have "\<exists>c. peek buffer size' i = Some c \<and> c \<noteq> NUL" if "pos \<le> i" "i < q" for i
      proof (cases "i = pos")
        case True
        with c n show ?thesis by simp
      next
        case False
        with that ih(2) show ?thesis by simp
      qed
      with ih show ?thesis by simp
    qed
  qed
qed

subsection \<open>The view after a failed parse\<close>

lemma parse_tags_failed:
  assumes r: "parse_tags buffer size' p0 v0 = Some (False, v)" and e: "mArgs v0 = []"
  shows "address v = address v0 \<and> typeTags v = in_buffer (p0 + 1) \<and>
         (\<exists>q'. scan_nul buffer size' p0 = Some q' \<and>
            (if q' \<ge> size' then mArgs v = []
             else \<exists>pos t. decoded buffer size' (p0 + 1) (align4 (q' + 1)) (length (mArgs v)) =
                             Some (pos, mArgs v) \<and>
                          length (mArgs v) < MAX_ARGS \<and>
                          peek buffer size' (p0 + 1 + length (mArgs v)) = Some t \<and> t \<noteq> NUL \<and>
                          parse_arg buffer size' pos t = Some None))"
proof (cases "p0 < size'")
  case False
  with r show ?thesis by (simp add: parse_tags_no_tags)
next
  case True
  show ?thesis
  proof (cases "peek buffer size' p0")
    case None
    with r True show ?thesis by (simp add: parse_tags_fault)
  next
    case (Some c)
    show ?thesis
    proof (cases "c = CHR '',''")
      case False
      with Some r show ?thesis by (simp add: parse_tags_no_tags)
    next
      case c: True
      note eq = parse_tags_comma[OF True Some[unfolded c], of v0]
      show ?thesis
      proof (cases "scan_nul buffer size' p0")
        case None
        with r eq show ?thesis by simp
      next
        case q: (Some q')
        show ?thesis
        proof (cases "q' \<ge> size'")
          case True
          with r eq q have "v = v0\<lparr>typeTags := in_buffer (p0 + 1)\<rparr>" by simp
          with q True e show ?thesis by simp
        next
          case False
          with r eq q
          have pa: "parse_args buffer size' (p0 + 1) (align4 (q' + 1))
                  (v0\<lparr>typeTags := in_buffer (p0 + 1)\<rparr>) = Some (False, v)" by simp
          from parse_args_failed[OF pa] obtain k pos t args
            where d: "decoded buffer size' (p0 + 1) (align4 (q' + 1)) k = Some (pos, args)"
              and v: "v = v0\<lparr>typeTags := in_buffer (p0 + 1)\<rparr>\<lparr>mArgs := mArgs (v0\<lparr>typeTags := in_buffer (p0 + 1)\<rparr>) @ args\<rparr>"
              and l: "length (mArgs v) < MAX_ARGS"
              and pk: "peek buffer size' (p0 + 1 + k) = Some t" "t \<noteq> NUL"
              and f: "parse_arg buffer size' pos t = Some None" by blast
          from v e have ma: "mArgs v = args" and ad: "address v = address v0"
            and tt: "typeTags v = in_buffer (p0 + 1)" by simp_all
          from decoded_length[OF d] have k: "length (mArgs v) = k" using ma by simp
          have "\<exists>pos t. decoded buffer size' (p0 + 1) (align4 (q' + 1)) (length (mArgs v)) =
                             Some (pos, mArgs v) \<and>
                          length (mArgs v) < MAX_ARGS \<and>
                          peek buffer size' (p0 + 1 + length (mArgs v)) = Some t \<and> t \<noteq> NUL \<and>
                          parse_arg buffer size' pos t = Some None"
            unfolding k unfolding ma using d l pk f k by blast
          with q False ad tt show ?thesis by simp
        qed
      qed
    qed
  qed
qed

text \<open>
  C4, amended.  \<^verbatim>\<open>parse\<close> clears the view before anything else and never clears it again.
  When it returns \<^verbatim>\<open>false\<close>, the view is cleared exactly when the first check failed (fewer
  than four bytes, or a first byte other than \<open>/\<close>).  After any later failure the address
  field refers to the start of the buffer.  The type-tag field is unset exactly when the
  address has no terminator inside the buffer, and then no argument is counted; otherwise
  it refers to the byte after the comma.  If the type tag string has no terminator inside
  the buffer, no argument is counted; otherwise the failure is that of an argument, and the
  view holds the slots of all the arguments decoded before it, in order, the failing
  argument being the next one and among the first 64.
\<close>

theorem parse_failure_view:
  assumes "parse buffer size' = Some (False, v)"
  shows "((v = view_clear) = (size' < 4 \<or> peek buffer size' 0 \<noteq> Some CHR ''/'')) \<and>
         (v \<noteq> view_clear \<longrightarrow>
            address v = in_buffer 0 \<and> typeTags v \<noteq> empty_literal \<and>
            (typeTags v = nullptr \<longrightarrow> mArgs v = []) \<and> length (mArgs v) \<le> MAX_ARGS) \<and>
         (v \<noteq> view_clear \<longrightarrow>
            (\<exists>q. scan_nul buffer size' 0 = Some q \<and>
               (if q \<ge> size' then typeTags v = nullptr
                else typeTags v = in_buffer (align4 (q + 1) + 1) \<and>
                  (\<exists>q'. scan_nul buffer size' (align4 (q + 1)) = Some q' \<and>
                     (if q' \<ge> size' then mArgs v = []
                      else \<exists>pos t.
                        decoded buffer size' (align4 (q + 1) + 1) (align4 (q' + 1)) (length (mArgs v)) =
                          Some (pos, mArgs v) \<and>
                        length (mArgs v) < MAX_ARGS \<and>
                        peek buffer size' (align4 (q + 1) + 1 + length (mArgs v)) = Some t \<and>
                        t \<noteq> NUL \<and> parse_arg buffer size' pos t = Some None)))))"
proof (cases "size' < 4")
  case True
  with assms show ?thesis by (simp add: parse_short)
next
  case s4: False
  show ?thesis
  proof (cases "peek buffer size' 0")
    case None
    with assms s4 show ?thesis by (simp add: parse_fault)
  next
    case (Some c)
    show ?thesis
    proof (cases "c = CHR ''/''")
      case False
      with assms s4 Some show ?thesis by (simp add: parse_bad_start)
    next
      case True
      note eq = parse_slash[OF s4 Some[unfolded True]]
      let ?v1 = "view_clear\<lparr>address := in_buffer 0\<rparr>"
      have ne: "address v = in_buffer 0 \<Longrightarrow> v \<noteq> view_clear" by (auto simp: view_clear_def)
      have first: "\<not> (size' < 4 \<or> peek buffer size' 0 \<noteq> Some CHR ''/'')"
        using s4 Some True by simp
      show ?thesis
      proof (cases "scan_nul buffer size' 0")
        case None
        with assms eq show ?thesis by simp
      next
        case p: (Some q)
        show ?thesis
        proof (cases "q \<ge> size'")
          case True
          with assms eq p have "v = ?v1" by simp
          then show ?thesis using first p True by (simp add: view_clear_def)
        next
          case False
          with assms eq p have pt: "parse_tags buffer size' (align4 (q + 1)) ?v1 = Some (False, v)"
            by simp
          have e: "mArgs ?v1 = []" by (simp add: view_clear_def)
          from parse_tags_failed[OF pt e]
          have ad: "address v = in_buffer 0" and tt: "typeTags v = in_buffer (align4 (q + 1) + 1)"
            and rest: "\<exists>q'. scan_nul buffer size' (align4 (q + 1)) = Some q' \<and>
                     (if q' \<ge> size' then mArgs v = []
                      else \<exists>pos t.
                        decoded buffer size' (align4 (q + 1) + 1) (align4 (q' + 1)) (length (mArgs v)) =
                          Some (pos, mArgs v) \<and>
                        length (mArgs v) < MAX_ARGS \<and>
                        peek buffer size' (align4 (q + 1) + 1 + length (mArgs v)) = Some t \<and>
                        t \<noteq> NUL \<and> parse_arg buffer size' pos t = Some None)"
            by (simp_all add: view_clear_def)
          from rest have len: "length (mArgs v) \<le> MAX_ARGS" by (auto split: if_splits)
          have A: "(v = view_clear) = (size' < 4 \<or> peek buffer size' 0 \<noteq> Some CHR ''/'')"
            using ne[OF ad] first by simp
          have B: "address v = in_buffer 0 \<and> typeTags v \<noteq> empty_literal \<and>
            (typeTags v = nullptr \<longrightarrow> mArgs v = []) \<and> length (mArgs v) \<le> MAX_ARGS"
            using ad tt len by simp
          have C: "\<exists>q. scan_nul buffer size' 0 = Some q \<and>
               (if q \<ge> size' then typeTags v = nullptr
                else typeTags v = in_buffer (align4 (q + 1) + 1) \<and>
                  (\<exists>q'. scan_nul buffer size' (align4 (q + 1)) = Some q' \<and>
                     (if q' \<ge> size' then mArgs v = []
                      else \<exists>pos t.
                        decoded buffer size' (align4 (q + 1) + 1) (align4 (q' + 1)) (length (mArgs v)) =
                          Some (pos, mArgs v) \<and>
                        length (mArgs v) < MAX_ARGS \<and>
                        peek buffer size' (align4 (q + 1) + 1 + length (mArgs v)) = Some t \<and>
                        t \<noteq> NUL \<and> parse_arg buffer size' pos t = Some None)))"
            using p False tt rest by (intro exI[of _ q]) simp
          from A B C show ?thesis by blast
        qed
      qed
    qed
  qed
qed

text \<open>
  C4 as stated fails: an address without terminator leaves the address field set, and an
  argument that does not fit leaves the address, the type tags and the slots of the
  arguments before it.
\<close>

theorem parse_failure_counterexample:
  "parse ''/abc'' 4 = Some (False, \<lparr>address = in_buffer 0, typeTags = nullptr, mArgs = []\<rparr>) \<and>
   parse (''/a'' @ [NUL, NUL] @ '',ii'' @ [NUL] @ [NUL, NUL, NUL, CHR 0x05]) 12 =
     Some (False, \<lparr>address = in_buffer 0, typeTags = in_buffer 5,
       mArgs = [\<lparr>type = CHR ''i'', val = Int32 5, sptr = None, blobData = None, blobSize = None\<rparr>]\<rparr>)"
  by (simp add: eval_simps be_five)

theorem parse_failure_view_witness:
  "parse ''/abc'' 4 = Some (False, \<lparr>address = in_buffer 0, typeTags = nullptr, mArgs = []\<rparr>) \<and>
   \<lparr>address = in_buffer 0, typeTags = nullptr, mArgs = []\<rparr> \<noteq> view_clear \<and>
   parse (''/a'' @ [NUL, NUL] @ '',ii'' @ [NUL] @ [NUL, NUL, NUL, CHR 0x05]) 12 =
     Some (False, \<lparr>address = in_buffer 0, typeTags = in_buffer 5,
       mArgs = [\<lparr>type = CHR ''i'', val = Int32 5, sptr = None, blobData = None, blobSize = None\<rparr>]\<rparr>) \<and>
   \<lparr>address = in_buffer 0, typeTags = in_buffer 5,
     mArgs = [\<lparr>type = CHR ''i'', val = Int32 5, sptr = None, blobData = None, blobSize = None\<rparr>]\<rparr>
     \<noteq> view_clear \<and>
   decoded (''/a'' @ [NUL, NUL] @ '',ii'' @ [NUL] @ [NUL, NUL, NUL, CHR 0x05]) 12 5 8 1 =
     Some (12, [\<lparr>type = CHR ''i'', val = Int32 5, sptr = None, blobData = None, blobSize = None\<rparr>]) \<and>
   parse_arg (''/a'' @ [NUL, NUL] @ '',ii'' @ [NUL] @ [NUL, NUL, NUL, CHR 0x05]) 12 12 (CHR ''i'') =
     Some None"
proof -
  let ?B = "''/a'' @ [NUL, NUL] @ '',ii'' @ [NUL] @ [NUL, NUL, NUL, CHR 0x05]"
  let ?a = "\<lparr>type = CHR ''i'', val = Int32 5, sptr = None, blobData = None, blobSize = None\<rparr>"
  let ?V = "\<lparr>address = in_buffer 0, typeTags = in_buffer 5, mArgs = [?a]\<rparr>"
  have p: "parse ''/abc'' 4 = Some (False, \<lparr>address = in_buffer 0, typeTags = nullptr, mArgs = []\<rparr>)"
    by (simp add: eval_simps)
  have p2: "parse ?B 12 = Some (False, ?V)" by (simp add: eval_simps be_five)
  have d: "decoded ?B 12 5 8 1 = Some (12, [?a])"
    by (simp add: peek_def peeks_def parse_arg_def be_five)
  have f: "parse_arg ?B 12 12 (CHR ''i'') = Some None" by (simp add: parse_arg_def)
  from parse_failure_view[OF p]
  have n1: "\<lparr>address = in_buffer 0, typeTags = nullptr, mArgs = []\<rparr> \<noteq> view_clear"
    by (simp add: peek_def)
  from parse_failure_view[OF p2] have n2: "?V \<noteq> view_clear" by (simp add: peek_def)
  from p n1 p2 n2 d f show ?thesis by blast
qed

subsection \<open>More than 64 type tags\<close>

lemma decoded_T_run:
  assumes "\<forall>i<k. peek buffer size' (ty + i) = Some (CHR ''T'')"
  shows "decoded buffer size' ty pos k = Some (pos, replicate k (empty_slot (CHR ''T'')))"
  using assms
proof (induction k arbitrary: ty)
  case 0
  then show ?case by simp
next
  case (Suc k)
  from Suc.prems have pk: "peek buffer size' ty = Some (CHR ''T'')" by force
  have pa: "parse_arg buffer size' pos (CHR ''T'') = Some (Some (pos, empty_slot (CHR ''T'')))"
    by (rule parse_arg_tag_only) simp
  have a: "\<forall>i<k. peek buffer size' (Suc ty + i) = Some (CHR ''T'')"
  proof (intro allI impI)
    fix i assume "i < k"
    then have "Suc i < Suc k" by simp
    with Suc.prems have "peek buffer size' (ty + Suc i) = Some (CHR ''T'')" by blast
    then show "peek buffer size' (Suc ty + i) = Some (CHR ''T'')" by simp
  qed
  have "decoded buffer size' ty pos (Suc k) =
        Some (pos, empty_slot (CHR ''T'') # replicate k (empty_slot (CHR ''T'')))"
    by (rule decoded_Suc[OF pk _ pa Suc.IH[OF a]]) simp
  then show ?case by simp
qed

text \<open>
  C10 as stated fails: with 65 tags \<open>i\<close> and no payload the first argument does not fit in
  the buffer and \<^verbatim>\<open>parse\<close> returns \<^verbatim>\<open>false\<close> with no argument counted; with 63 tags \<open>T\<close>, a
  tag \<open>i\<close> without payload and one more tag \<open>T\<close>, it is the 64th argument that does not fit,
  and \<^verbatim>\<open>parse\<close> returns \<^verbatim>\<open>false\<close> with 63 arguments counted.
\<close>

theorem parse_many_tags_counterexample:
  "parse (''/a'' @ [NUL, NUL] @ '','' @ replicate 65 (CHR ''i'') @ [NUL, NUL]) 72 =
     Some (False, \<lparr>address = in_buffer 0, typeTags = in_buffer 5, mArgs = []\<rparr>) \<and>
   c_string (''/a'' @ [NUL, NUL] @ '','' @ replicate 65 (CHR ''i'') @ [NUL, NUL]) 5 =
     replicate 65 (CHR ''i'') \<and>
   parse (''/a'' @ [NUL, NUL] @ '','' @ replicate 63 (CHR ''T'') @ ''iT'' @ [NUL, NUL]) 72 =
     Some (False, \<lparr>address = in_buffer 0, typeTags = in_buffer 5,
                   mArgs = replicate 63 (empty_slot (CHR ''T''))\<rparr>)"
proof -
  let ?B = "''/a'' @ [NUL, NUL] @ '','' @ replicate 65 (CHR ''i'') @ [NUL, NUL]"
  let ?v = "\<lparr>address = in_buffer 0, typeTags = in_buffer 5, mArgs = []\<rparr>"
  have B: "?B = pad0 (''/a'' @ [NUL]) @ pad0 (CHR '','' # replicate 65 (CHR ''i'') @ [NUL]) @ []"
    by (simp add: pad0_def up4_def)
  have len: "length ?B = 72" by simp
  have h: "parse ?B 72 = parse_args ?B 72 5 72 ?v"
    using parse_header[of "''/a''" "replicate 65 (CHR ''i'')" "[]"]
    unfolding B[symmetric] len by (simp add: up4_def)
  have pk: "peek ?B 72 5 = Some (CHR ''i'')" by (simp add: peek_def nth_append)
  have pa: "parse_arg ?B 72 72 (CHR ''i'') = Some None" by (simp add: parse_arg_def)
  have "parse_args ?B 72 5 72 ?v = Some (False, ?v)"
    by (rule parse_args_fail[OF pk _ _ pa]) simp_all
  with h have one: "parse ?B 72 = Some (False, ?v)" by simp
  have two: "c_string ?B 5 = replicate 65 (CHR ''i'')"
  proof -
    have five: "Suc (Suc (Suc (Suc (Suc 0)))) = 5" by simp
    show ?thesis
      using c_string_here[of "replicate 65 (CHR ''i'')" "''/a'' @ [NUL, NUL] @ '',''" "[NUL]"]
      by (simp add: five)
  qed
  let ?C = "''/a'' @ [NUL, NUL] @ '','' @ replicate 63 (CHR ''T'') @ ''iT'' @ [NUL, NUL]"
  have C: "?C = pad0 (''/a'' @ [NUL]) @ pad0 (CHR '','' # (replicate 63 (CHR ''T'') @ ''iT'') @ [NUL]) @ []"
    by (simp add: pad0_def up4_def)
  have lenC: "length ?C = 72" by simp
  have hC: "parse ?C 72 = parse_args ?C 72 5 72 ?v"
    using parse_header[of "''/a''" "replicate 63 (CHR ''T'') @ ''iT''" "[]"]
    unfolding C[symmetric] lenC by (simp add: up4_def)
  have nth: "?C ! (5 + i) = CHR ''T''" if "i < 63" for i
    using that nth_append_length_plus[of "''/a'' @ [NUL, NUL] @ '',''" "replicate 63 (CHR ''T'') @ ''iT'' @ [NUL, NUL]" i]
    by (simp add: nth_append)
  have pkT: "peek ?C 72 (5 + i) = Some (CHR ''T'')" if "i < 63" for i
    using nth[OF that] that unfolding peek_def lenC by simp
  have d: "decoded ?C 72 5 72 63 = Some (72, replicate 63 (empty_slot (CHR ''T'')))"
    by (rule decoded_T_run) (use pkT in simp)
  have st: "parse_args ?C 72 5 72 ?v =
      parse_args ?C 72 (5 + 63) 72 (?v\<lparr>mArgs := mArgs ?v @ replicate 63 (empty_slot (CHR ''T''))\<rparr>)"
    by (rule parse_args_decoded[OF d]) simp
  have nthi: "?C ! (5 + 63) = CHR ''i''"
    using nth_append_length_plus[of "''/a'' @ [NUL, NUL] @ '','' @ replicate 63 (CHR ''T'')" "''iT'' @ [NUL, NUL]" 0]
    by simp
  have pki: "peek ?C 72 (5 + 63) = Some (CHR ''i'')"
    using nthi unfolding peek_def lenC by simp
  have paC: "parse_arg ?C 72 72 (CHR ''i'') = Some None" by (simp add: parse_arg_def)
  have "parse_args ?C 72 (5 + 63) 72 (?v\<lparr>mArgs := mArgs ?v @ replicate 63 (empty_slot (CHR ''T''))\<rparr>) =
        Some (False, ?v\<lparr>mArgs := mArgs ?v @ replicate 63 (empty_slot (CHR ''T''))\<rparr>)"
    by (rule parse_args_fail[OF pki _ _ paC]) simp_all
  with st hC have three: "parse ?C 72 = Some (False, \<lparr>address = in_buffer 0, typeTags = in_buffer 5,
                   mArgs = replicate 63 (empty_slot (CHR ''T''))\<rparr>)" by simp
  from one two three show ?thesis by blast
qed

text \<open>
  C10, amended.  Let the buffer start with \<open>/\<close>, the address and the type tag string have
  their terminators inside the buffer, the type tag string hold more than 64 tags, and the
  arguments of the first 64 tags be decoded, one after the other from the aligned position
  after the tag string.  Then \<^verbatim>\<open>parse\<close> returns \<^verbatim>\<open>true\<close> with exactly the 64 slots of these
  arguments; the 65th tag is a tag, not the terminator, and the loop returns \<^verbatim>\<open>true\<close> in front
  of it with the view as it is: no slot is added, no payload is read and no error is
  reported for the remaining tags.
\<close>

theorem parse_many_tags:
  assumes size: "\<not> size' < 4" and slash: "peek buffer size' 0 = Some (CHR ''/'')"
    and addr: "scan_nul buffer size' 0 = Some q" "q < size'"
    and comma: "peek buffer size' (align4 (q + 1)) = Some (CHR '','')"
    and tags: "scan_nul buffer size' (align4 (q + 1)) = Some q'" "q' < size'"
    and many: "align4 (q + 1) + 1 + MAX_ARGS < q'"
    and args: "decoded buffer size' (align4 (q + 1) + 1) (align4 (q' + 1)) MAX_ARGS = Some (pos, slots64)"
  shows "parse buffer size' =
           Some (True, \<lparr>address = in_buffer 0, typeTags = in_buffer (align4 (q + 1) + 1),
                        mArgs = slots64\<rparr>) \<and>
         argCount \<lparr>address = in_buffer 0, typeTags = in_buffer (align4 (q + 1) + 1),
                   mArgs = slots64\<rparr> = MAX_ARGS \<and>
         (\<exists>t. peek buffer size' (align4 (q + 1) + 1 + MAX_ARGS) = Some t \<and> t \<noteq> NUL) \<and>
         parse_args buffer size' (align4 (q + 1) + 1 + MAX_ARGS) pos
           \<lparr>address = in_buffer 0, typeTags = in_buffer (align4 (q + 1) + 1), mArgs = slots64\<rparr> =
           Some (True, \<lparr>address = in_buffer 0, typeTags = in_buffer (align4 (q + 1) + 1),
                        mArgs = slots64\<rparr>)"
proof -
  let ?p = "align4 (q + 1)"
  let ?v1 = "view_clear\<lparr>address := in_buffer 0\<rparr>"
  let ?v2 = "?v1\<lparr>typeTags := in_buffer (?p + 1)\<rparr>"
  let ?V = "\<lparr>address = in_buffer 0, typeTags = in_buffer (?p + 1), mArgs = slots64\<rparr>"
  have len: "length slots64 = MAX_ARGS" by (rule decoded_length[OF args])
  from scan_nul_tags[OF tags(1)] many
  obtain t where t: "peek buffer size' (?p + 1 + MAX_ARGS) = Some t" "t \<noteq> NUL"
    by (metis add_leD1 less_imp_le_nat add.assoc le_add1)
  have ps: "?p < size'" using comma by (simp add: peek_def split: if_splits)
  have e1: "parse buffer size' = parse_tags buffer size' ?p ?v1"
    using parse_slash[OF size slash] addr by simp
  have e2: "parse_tags buffer size' ?p ?v1 = parse_args buffer size' (?p + 1) (align4 (q' + 1)) ?v2"
    using parse_tags_comma[OF ps comma, of ?v1] tags by simp
  have e3: "parse_args buffer size' (?p + 1) (align4 (q' + 1)) ?v2 =
            parse_args buffer size' (?p + 1 + MAX_ARGS) pos (?v2\<lparr>mArgs := mArgs ?v2 @ slots64\<rparr>)"
    by (rule parse_args_decoded[OF args]) (simp add: view_clear_def)
  have V: "?v2\<lparr>mArgs := mArgs ?v2 @ slots64\<rparr> = ?V" by (simp add: view_clear_def)
  have e4: "parse_args buffer size' (?p + 1 + MAX_ARGS) pos ?V = Some (True, ?V)"
    by (rule parse_args_stop[OF t(1)]) (simp add: len)
  from e1 e2 e3 e4 have "parse buffer size' = Some (True, ?V)" unfolding V by simp
  with len t e4 show ?thesis by (simp add: argCount_def)
qed

theorem parse_many_tags_witness:
  "parse (''/a'' @ [NUL, NUL] @ '','' @ replicate 65 (CHR ''T'') @ [NUL, NUL]) 72 =
     Some (True, \<lparr>address = in_buffer 0, typeTags = in_buffer 5,
                  mArgs = replicate 64 (empty_slot (CHR ''T''))\<rparr>) \<and>
   argCount \<lparr>address = in_buffer 0, typeTags = in_buffer 5,
             mArgs = replicate 64 (empty_slot (CHR ''T''))\<rparr> = 64 \<and>
   peek (''/a'' @ [NUL, NUL] @ '','' @ replicate 65 (CHR ''T'') @ [NUL, NUL]) 72 69 = Some (CHR ''T'')"
proof -
  let ?B = "''/a'' @ [NUL, NUL] @ '','' @ replicate 65 (CHR ''T'') @ [NUL, NUL]"
  have len: "length ?B = 72" by simp
  have nth: "?B ! (5 + i) = CHR ''T''" if "i \<le> 64" for i
    using that nth_append_length_plus[of "''/a'' @ [NUL, NUL] @ '',''" "replicate 65 (CHR ''T'') @ [NUL, NUL]" i]
    by (simp add: nth_append)
  have pk: "peek ?B 72 (5 + i) = Some (CHR ''T'')" if "i \<le> 64" for i
    using nth[OF that] that unfolding peek_def len by simp
  have s0: "scan_nul ?B 72 0 = Some 2"
    using scan_nul_app[of "''/a''" "[]" "[NUL] @ '','' @ replicate 65 (CHR ''T'') @ [NUL, NUL]"] by simp
  have four: "Suc (Suc (Suc (Suc 0))) = 4" by simp
  have s4: "scan_nul ?B 72 4 = Some 70"
    using scan_nul_app[of "'','' @ replicate 65 (CHR ''T'')" "''/a'' @ [NUL, NUL]" "[NUL]"]
    by (simp add: four)
  have al: "align4 3 = 4" "align4 71 = 72" by (simp_all add: align4_def sz_def)
  have d: "decoded ?B 72 5 72 64 = Some (72, replicate 64 (empty_slot (CHR ''T'')))"
    by (rule decoded_T_run) (use pk in simp)
  have p69: "peek ?B 72 69 = Some (CHR ''T'')" using pk[of 64] by simp
  have "parse ?B 72 = Some (True, \<lparr>address = in_buffer 0, typeTags = in_buffer 5,
                  mArgs = replicate 64 (empty_slot (CHR ''T''))\<rparr>)"
    using parse_many_tags[of 72 ?B 2 70 72 "replicate 64 (empty_slot (CHR ''T''))"] s0 s4 d
    by (simp add: al peek_def)
  with p69 show ?thesis by (simp add: argCount_def)
qed

subsection \<open>The parser reads the first \<open>size'\<close> bytes only\<close>

lemma peek_take:
  "peek buffer size' i =
     (if i < length (take size' buffer) then Some (take size' buffer ! i) else None)"
  by (simp add: peek_def)

lemma peeks_take:
  "peeks buffer size' i n =
     (if i + n \<le> length (take size' buffer) then Some (take n (drop i (take size' buffer))) else None)"
  by (auto simp: peeks_def drop_take min_def)

lemma peek_cong: "take size' b1 = take size' b2 \<Longrightarrow> peek b1 size' i = peek b2 size' i"
  by (simp add: peek_take)

lemma peeks_cong: "take size' b1 = take size' b2 \<Longrightarrow> peeks b1 size' i n = peeks b2 size' i n"
  by (simp add: peeks_take)

lemma scan_nul_cong:
  "take size' b1 = take size' b2 \<Longrightarrow> scan_nul b1 size' pos = scan_nul b2 size' pos"
proof (induction b1 size' pos rule: scan_nul.induct)
  case (1 b1 size' pos)
  note pk = peek_cong[OF "1.prems", of pos]
  show ?case
  proof (cases "pos < size'")
    case False
    then show ?thesis by (simp add: scan_nul.simps[of _ size' pos])
  next
    case True
    show ?thesis
    proof (cases "peek b1 size' pos")
      case None
      with True pk show ?thesis by (simp add: scan_nul.simps[of _ size' pos])
    next
      case (Some c)
      from pk Some have p2: "peek b2 size' pos = Some c" by simp
      show ?thesis
      proof (cases "c = NUL")
        case c: True
        with True p2 Some show ?thesis by (simp add: scan_nul.simps[of _ size' pos])
      next
        case False
        from "1.IH"[OF True Some False "1.prems"] True p2 Some False show ?thesis
          by (simp add: scan_nul.simps[of _ size' pos])
      qed
    qed
  qed
qed

lemma parse_arg_cong:
  assumes "take size' b1 = take size' b2"
  shows "parse_arg b1 size' pos t = parse_arg b2 size' pos t"
  unfolding parse_arg_def peek_cong[OF assms] peeks_cong[OF assms] scan_nul_cong[OF assms]
  by (rule refl)

lemma parse_args_cong:
  "take size' b1 = take size' b2 \<Longrightarrow>
   parse_args b1 size' ty pos v = parse_args b2 size' ty pos v"
proof (induction b1 size' ty pos v rule: parse_args.induct)
  case (1 b1 size' ty pos v)
  note pk = peek_cong[OF "1.prems", of ty]
  show ?case
  proof (cases "peek b1 size' ty")
    case None
    with pk show ?thesis by (simp add: parse_args.simps[of _ size' ty])
  next
    case (Some t)
    note pa = parse_arg_cong[OF "1.prems", of pos t]
    from pk Some have p2: "peek b2 size' ty = Some t" by simp
    show ?thesis
    proof (cases "t \<noteq> NUL \<and> length (mArgs v) < MAX_ARGS")
      case False
      with parse_args_stop[OF Some, of v pos] parse_args_stop[OF p2, of v pos] show ?thesis by auto
    next
      case True
      show ?thesis
      proof (cases "parse_arg b1 size' pos t")
        case None
        with pa have a2: "parse_arg b2 size' pos t = None" by simp
        with None True p2 Some show ?thesis by (simp add: parse_args.simps[of _ size' ty])
      next
        case r: (Some r)
        with pa have a2: "parse_arg b2 size' pos t = Some r" by simp
        show ?thesis
        proof (cases r)
          case None
          with True p2 a2 Some r show ?thesis by (simp add: parse_args.simps[of _ size' ty])
        next
          case x: (Some x)
          obtain pos' arg where px: "x = (pos', arg)" by (cases x)
          from "1.IH"[OF Some True r x px[symmetric] "1.prems"] True p2 a2 Some r x px
          show ?thesis by (simp add: parse_args.simps[of _ size' ty])
        qed
      qed
    qed
  qed
qed

lemma parse_tags_cong:
  assumes "take size' b1 = take size' b2"
  shows "parse_tags b1 size' pos v = parse_tags b2 size' pos v"
  unfolding parse_tags_def peek_cong[OF assms] scan_nul_cong[OF assms] parse_args_cong[OF assms]
  by (rule refl)

lemma parse_cong:
  assumes "take size' b1 = take size' b2"
  shows "parse b1 size' = parse b2 size'"
  unfolding parse_def peek_cong[OF assms] scan_nul_cong[OF assms] parse_tags_cong[OF assms]
  by (rule refl)

subsection \<open>The loop of the bundle dispatcher\<close>

lemma parseBundle_loop_end:
  "\<not> pos + 4 \<le> size' \<Longrightarrow> parseBundle_loop buffer size' pos = Some []"
  by (subst parseBundle_loop.simps) simp

lemma parseBundle_loop_fault:
  "pos + 4 \<le> size' \<Longrightarrow> peeks buffer size' pos 4 = None \<Longrightarrow>
   parseBundle_loop buffer size' pos = None"
  by (subst parseBundle_loop.simps) simp

lemma parseBundle_loop_break:
  "pos + 4 \<le> size' \<Longrightarrow> peeks buffer size' pos 4 = Some bs \<Longrightarrow>
   sint (swap_endian32 (le_word32 bs)) \<le> 0 \<or> size' < pos + 4 + unat (swap_endian32 (le_word32 bs)) \<Longrightarrow>
   parseBundle_loop buffer size' pos = Some []"
  by (subst parseBundle_loop.simps) (simp add: Let_def)

lemma parseBundle_loop_step:
  "pos + 4 \<le> size' \<Longrightarrow> peeks buffer size' pos 4 = Some bs \<Longrightarrow>
   \<not> (sint (swap_endian32 (le_word32 bs)) \<le> 0 \<or>
       size' < pos + 4 + unat (swap_endian32 (le_word32 bs))) \<Longrightarrow>
   parseBundle_loop buffer size' pos =
     (case element (drop (pos + 4) buffer) (unat (swap_endian32 (le_word32 bs))) of
        None \<Rightarrow> None
      | Some calls \<Rightarrow>
          (case parseBundle_loop buffer size' (pos + 4 + unat (swap_endian32 (le_word32 bs))) of
             None \<Rightarrow> None
           | Some calls' \<Rightarrow> Some (calls @ calls')))"
  by (subst parseBundle_loop.simps) (simp add: Let_def element_def)

lemma parseBundle_loop_cong:
  assumes "(p1 + 4 \<le> s1) = (p2 + 4 \<le> s2)"
    and "p1 + 4 \<le> s1 \<Longrightarrow> s1 - p1 = s2 - p2 \<and> take (s1 - p1) (drop p1 b1) = take (s2 - p2) (drop p2 b2)"
  shows "parseBundle_loop b1 s1 p1 = parseBundle_loop b2 s2 p2"
  using assms
proof (induction b1 s1 p1 arbitrary: b2 s2 p2 rule: parseBundle_loop.induct)
  case (1 b1 s1 p1)
  show ?case
  proof (cases "p1 + 4 \<le> s1")
    case False
    with "1.prems"(1) show ?thesis by (simp add: parseBundle_loop_end)
  next
    case in1: True
    with "1.prems"(1) have in2: "p2 + 4 \<le> s2" by simp
    from "1.prems"(2)[OF in1] have k: "s1 - p1 = s2 - p2"
      and T: "take (s1 - p1) (drop p1 b1) = take (s2 - p2) (drop p2 b2)" by blast+
    define k where "k = s1 - p1"
    have s1: "s1 = p1 + k" and s2: "s2 = p2 + k" and k4: "4 \<le> k"
      using in1 in2 k by (simp_all add: k_def)
    have Tk: "take k (drop p1 b1) = take k (drop p2 b2)" using T k by (simp add: k_def)
    have tk: "take j (drop (p1 + i) b1) = take j (drop (p2 + i) b2)" if "i + j \<le> k" for i j
    proof -
      have "take j (drop i (take k (drop p1 b1))) = take j (drop i (take k (drop p2 b2)))"
        using Tk by simp
      moreover have "j \<le> k - i" using that by simp
      ultimately show ?thesis by (simp add: drop_take min_def add.commute)
    qed
    have t4: "take 4 (drop p1 b1) = take 4 (drop p2 b2)" using tk[of 0 4] k4 by simp
    have l4: "(p1 + 4 \<le> length b1) = (p2 + 4 \<le> length b2)"
    proof -
      have "length (take 4 (drop p1 b1)) = length (take 4 (drop p2 b2))" using t4 by simp
      then show ?thesis by (simp add: min_def split: if_splits) linarith+
    qed
    have pk: "peeks b1 s1 p1 4 = peeks b2 s2 p2 4"
      using in1 in2 l4 t4 by (simp add: peeks_def)
    show ?thesis
    proof (cases "peeks b1 s1 p1 4")
      case None
      with pk have "peeks b2 s2 p2 4 = None" by simp
      with None in1 in2 show ?thesis by (simp add: parseBundle_loop_fault)
    next
      case (Some bs)
      with pk have pk2: "peeks b2 s2 p2 4 = Some bs" by simp
      define e where "e = swap_endian32 (le_word32 bs)"
      define n where "n = unat e"
      show ?thesis
      proof (cases "sint e \<le> 0 \<or> s1 < p1 + 4 + n")
        case True
        then have "sint e \<le> 0 \<or> s2 < p2 + 4 + n" using s1 s2 by auto
        with True show ?thesis
          using parseBundle_loop_break[OF in1 Some] parseBundle_loop_break[OF in2 pk2]
          by (simp add: e_def n_def)
      next
        case False
        then have f2: "\<not> (sint e \<le> 0 \<or> s2 < p2 + 4 + n)" using s1 s2 by auto
        from False have nk: "4 + n \<le> k" using s1 by simp
        have tn: "take n (drop (p1 + 4) b1) = take n (drop (p2 + 4) b2)"
          using tk[of 4 n] nk by simp
        have el: "element (drop (p1 + 4) b1) n = element (drop (p2 + 4) b2) n"
        proof (cases "8 \<le> n \<and> take 7 (drop (p1 + 4) b1) = ''#bundle''")
          case True
          have t7: "take 7 (drop (p1 + 4) b1) = take 7 (drop (p2 + 4) b2)"
            using tk[of 4 7] nk True by simp
          have "parseBundle_loop (drop (p1 + 4) b1) n 16 = parseBundle_loop (drop (p2 + 4) b2) n 16"
          proof (rule "1.IH"(1)[OF in1 Some e_def refl _ refl n_def True])
            show "\<not> (sint e \<le> 0 \<or> s1 < p1 + 4 + unat e)" using False by (simp add: n_def)
            show "(16 + 4 \<le> n) = (16 + 4 \<le> n)" by simp
            show "n - 16 = n - 16 \<and>
                  take (n - 16) (drop 16 (drop (p1 + 4) b1)) = take (n - 16) (drop 16 (drop (p2 + 4) b2))"
              if "16 + 4 \<le> n"
            proof -
              have "drop 16 (take n (drop (p1 + 4) b1)) = drop 16 (take n (drop (p2 + 4) b2))"
                using tn by simp
              then show ?thesis by (simp add: drop_take)
            qed
          qed
          with True t7 show ?thesis by (simp add: element_def)
        next
          case nb: False
          have nb2: "\<not> (8 \<le> n \<and> take 7 (drop (p2 + 4) b2) = ''#bundle'')"
          proof (cases "8 \<le> n")
            case True
            have "take 7 (drop (p1 + 4) b1) = take 7 (drop (p2 + 4) b2)"
              using tk[of 4 7] nk True by simp
            with nb show ?thesis by simp
          next
            case False
            then show ?thesis by simp
          qed
          have e1: "element (drop (p1 + 4) b1) n =
              (case parse (drop (p1 + 4) b1) n of None \<Rightarrow> None
               | Some (ok, msg) \<Rightarrow> Some (if ok then [(take n (drop (p1 + 4) b1), msg)] else []))"
            using nb unfolding element_def by (rule if_not_P)
          have e2: "element (drop (p2 + 4) b2) n =
              (case parse (drop (p2 + 4) b2) n of None \<Rightarrow> None
               | Some (ok, msg) \<Rightarrow> Some (if ok then [(take n (drop (p2 + 4) b2), msg)] else []))"
            using nb2 unfolding element_def by (rule if_not_P)
          show ?thesis unfolding e1 e2 tn parse_cong[OF tn] by (rule refl)
        qed
        have nf1: "\<not> (sint (swap_endian32 (le_word32 bs)) \<le> 0 \<or>
                      s1 < p1 + 4 + unat (swap_endian32 (le_word32 bs)))"
          using False by (simp add: e_def n_def)
        have nf2: "\<not> (sint (swap_endian32 (le_word32 bs)) \<le> 0 \<or>
                      s2 < p2 + 4 + unat (swap_endian32 (le_word32 bs)))"
          using f2 by (simp add: e_def n_def)
        note st1 = parseBundle_loop_step[OF in1 Some nf1, folded e_def, folded n_def]
        note st2 = parseBundle_loop_step[OF in2 pk2 nf2, folded e_def, folded n_def]
        show ?thesis
        proof (cases "element (drop (p1 + 4) b1) n")
          case None
          with el have "element (drop (p2 + 4) b2) n = None" by simp
          with None show ?thesis unfolding st1 st2 by simp
        next
          case (Some calls)
          have r: "parseBundle_loop b1 s1 (p1 + 4 + n) = parseBundle_loop b2 s2 (p2 + 4 + n)"
          proof (rule "1.IH"(2)[OF in1 \<open>peeks b1 s1 p1 4 = Some bs\<close> e_def refl _ refl n_def])
            show "\<not> (sint e \<le> 0 \<or> s1 < p1 + 4 + unat e)" using False by (simp add: n_def)
            show "(if 8 \<le> n \<and> take 7 (drop (p1 + 4) b1) = ''#bundle''
                   then parseBundle_loop (drop (p1 + 4) b1) n 16
                   else case parse (drop (p1 + 4) b1) n of None \<Rightarrow> None
                        | Some (ok, msg) \<Rightarrow> Some (if ok then [(take n (drop (p1 + 4) b1), msg)] else [])) =
                  Some calls"
              using Some by (simp add: element_def)
            show "(p1 + 4 + n + 4 \<le> s1) = (p2 + 4 + n + 4 \<le> s2)" using s1 s2 by auto
            show "s1 - (p1 + 4 + n) = s2 - (p2 + 4 + n) \<and>
                  take (s1 - (p1 + 4 + n)) (drop (p1 + 4 + n) b1) =
                  take (s2 - (p2 + 4 + n)) (drop (p2 + 4 + n) b2)"
              if "p1 + 4 + n + 4 \<le> s1"
            proof -
              have "take (k - (4 + n)) (drop (p1 + (4 + n)) b1) = take (k - (4 + n)) (drop (p2 + (4 + n)) b2)"
                by (rule tk) (use nk in simp)
              then show ?thesis using s1 s2 by (simp add: add.assoc)
            qed
          qed
          show ?thesis unfolding st1 st2 el r by (rule refl)
        qed
      qed
    qed
  qed
qed

lemma unat_size: "k < 2147483648 \<Longrightarrow> unat (word_of_nat k :: 32 word) = k"
  by (simp add: unsigned_of_nat take_bit_nat_eq_self)

lemma sint_size: "k < 2147483648 \<Longrightarrow> sint (word_of_nat k :: 32 word) = int k"
  by (simp add: signed_of_nat signed_take_bit_int_eq_self)

lemma element_cong:
  assumes tn: "take n d1 = take n d2"
  shows "element d1 n = element d2 n"
proof (cases "8 \<le> n")
  case False
  then have e1: "\<not> (8 \<le> n \<and> take 7 d1 = ''#bundle'')" and e2: "\<not> (8 \<le> n \<and> take 7 d2 = ''#bundle'')"
    by simp_all
  show ?thesis unfolding element_def if_not_P[OF e1] if_not_P[OF e2] tn parse_cong[OF tn]
    by (rule refl)
next
  case True
  have "take 7 (take n d1) = take 7 (take n d2)" using tn by simp
  with True have t7: "take 7 d1 = take 7 d2" by (simp add: min_def)
  have lp: "parseBundle_loop d1 n 16 = parseBundle_loop d2 n 16"
  proof (rule parseBundle_loop_cong)
    show "(16 + 4 \<le> n) = (16 + 4 \<le> n)" by simp
    have "drop 16 (take n d1) = drop 16 (take n d2)" using tn by simp
    then show "n - 16 = n - 16 \<and> take (n - 16) (drop 16 d1) = take (n - 16) (drop 16 d2)"
      by (simp add: drop_take)
  qed
  show ?thesis unfolding element_def t7 lp tn parse_cong[OF tn] by (rule refl)
qed

text \<open>
  One round of the loop, at an element \<open>e\<close> that is preceded by its size: the calls of the
  element, then those of the rest of the buffer.
\<close>

lemma parseBundle_loop_element:
  assumes pos: "0 < length e" and small: "length e < 2147483648"
  shows "parseBundle_loop (pre @ be32 (word_of_nat (length e)) @ e @ rest)
           (length pre + 4 + length e + length rest) (length pre) =
         (case element e (length e) of
            None \<Rightarrow> None
          | Some calls \<Rightarrow>
              (case parseBundle_loop rest (length rest) 0 of
                 None \<Rightarrow> None
               | Some calls' \<Rightarrow> Some (calls @ calls')))"
proof -
  let ?w = "word_of_nat (length e) :: 32 word"
  let ?B = "pre @ be32 ?w @ e @ rest"
  let ?s = "length pre + 4 + length e + length rest"
  have len: "length ?B = ?s" by simp
  have in1: "length pre + 4 \<le> ?s" by simp
  have pk: "peeks ?B ?s (length pre) 4 = Some (be32 ?w)"
    by (simp add: peeks_def)
  have dec: "swap_endian32 (le_word32 (be32 ?w)) = ?w" by (rule be32_decode)
  have u: "unat ?w = length e" by (rule unat_size[OF small])
  have s: "sint ?w = int (length e)" by (rule sint_size[OF small])
  have nb: "\<not> (sint (swap_endian32 (le_word32 (be32 ?w))) \<le> 0 \<or>
               ?s < length pre + 4 + unat (swap_endian32 (le_word32 (be32 ?w))))"
    unfolding dec u s using pos by simp
  note st = parseBundle_loop_step[OF in1 pk nb, unfolded dec u]
  have d: "drop (length pre + 4) ?B = e @ rest" by simp
  have el: "element (drop (length pre + 4) ?B) (length e) = element e (length e)"
    unfolding d by (rule element_cong) simp
  have lp: "parseBundle_loop ?B ?s (length pre + 4 + length e) = parseBundle_loop rest (length rest) 0"
  proof (rule parseBundle_loop_cong)
    show "(length pre + 4 + length e + 4 \<le> ?s) = (0 + 4 \<le> length rest)" by auto
    have "drop (length pre + 4 + length e) ?B = rest" by simp
    then show "?s - (length pre + 4 + length e) = length rest - 0 \<and>
          take (?s - (length pre + 4 + length e)) (drop (length pre + 4 + length e) ?B) =
          take (length rest - 0) (drop 0 rest)"
      by simp
  qed
  show ?thesis unfolding st el lp by (rule refl)
qed

lemma parseBundle_header:
  "length hdr = 16 \<Longrightarrow> parseBundle (hdr @ rest) (16 + length rest) = parseBundle_loop rest (length rest) 0"
  unfolding parseBundle_def
  by (rule parseBundle_loop_cong) auto

subsection \<open>Nested bundles and messages\<close>

lemma be32_8: "be32 8 = [NUL, NUL, NUL, CHR 0x08]"
  by (simp add: be32_def le_bytes32_def swap_endian32_def byte_of_def char_of_def bit_Suc_0_iff)

lemma be32_28: "be32 28 = [NUL, NUL, NUL, CHR 0x1C]"
  by (simp add: be32_def le_bytes32_def swap_endian32_def byte_of_def char_of_def bit_Suc_0_iff)

lemma parse_no_arguments:
  "parse (''/a'' @ [NUL, NUL] @ '','' @ [NUL, NUL, NUL]) 8 =
     Some (True, \<lparr>address = in_buffer 0, typeTags = in_buffer 5, mArgs = []\<rparr>)"
  by (simp add: eval_simps)

lemma parseBundle_empty: "length hdr = 16 \<Longrightarrow> parseBundle hdr 16 = Some []"
  by (simp add: parseBundle_def parseBundle_loop_end)

text \<open>
  C3 as stated fails: an element of 28 bytes that starts with \<open>#bundleX\<close> does not start with
  the eight bytes of the bundle magic and does not parse as a message, yet the dispatcher
  recurses into it and calls back with the message nested in it.
\<close>

theorem bundle_magic_counterexample:
  "take 8 (''#bundleX'' @ replicate 8 NUL @ [NUL, NUL, NUL, CHR 0x08] @
           ''/a'' @ [NUL, NUL] @ '','' @ [NUL, NUL, NUL]) \<noteq> ''#bundle'' @ [NUL] \<and>
   parse (''#bundleX'' @ replicate 8 NUL @ [NUL, NUL, NUL, CHR 0x08] @
          ''/a'' @ [NUL, NUL] @ '','' @ [NUL, NUL, NUL]) 28 = Some (False, view_clear) \<and>
   parseBundle (''#bundle'' @ [NUL] @ replicate 8 NUL @ [NUL, NUL, NUL, CHR 0x1C] @
                ''#bundleX'' @ replicate 8 NUL @ [NUL, NUL, NUL, CHR 0x08] @
                ''/a'' @ [NUL, NUL] @ '','' @ [NUL, NUL, NUL]) 48 =
     Some [(''/a'' @ [NUL, NUL] @ '','' @ [NUL, NUL, NUL],
            \<lparr>address = in_buffer 0, typeTags = in_buffer 5, mArgs = []\<rparr>)]"
proof -
  let ?m = "''/a'' @ [NUL, NUL] @ '','' @ [NUL, NUL, NUL]"
  let ?h = "''#bundle'' @ [NUL] @ replicate 8 NUL"
  let ?h' = "''#bundleX'' @ replicate 8 NUL"
  let ?E = "?h' @ [NUL, NUL, NUL, CHR 0x08] @ ?m"
  let ?v = "\<lparr>address = in_buffer 0, typeTags = in_buffer 5, mArgs = []\<rparr>"
  have a: "take 8 ?E \<noteq> ''#bundle'' @ [NUL]" by simp
  have b: "parse ?E 28 = Some (False, view_clear)" by (simp add: parse_def peek_def)
  have em: "element ?m 8 = Some [(?m, ?v)]"
    using parse_no_arguments by (simp add: element_def)
  have lm: "length ?m = 8" and lE: "length ?E = 28" by simp_all
  have pm: "0 < length ?m" "length ?m < 2147483648" and pE: "0 < length ?E" "length ?E < 2147483648"
    by simp_all
  note i1 = parseBundle_loop_element[OF pm, of ?h' "[]", unfolded lm of_nat_numeral be32_8]
  have inner: "parseBundle_loop ?E 28 16 = Some [(?m, ?v)]"
    using i1 em by (simp add: parseBundle_loop_end)
  have eE: "element ?E 28 = Some [(?m, ?v)]"
    using inner by (simp add: element_def)
  note i2 = parseBundle_loop_element[OF pE, of ?h "[]", unfolded lE of_nat_numeral be32_28]
  have c: "parseBundle (?h @ [NUL, NUL, NUL, CHR 0x1C] @ ?E) 48 = Some [(?m, ?v)]"
    using i2 eE by (simp add: parseBundle_def parseBundle_loop_end)
  from a b c show ?thesis by simp
qed

text \<open>
  C3, amended.  In a bundle that continues, after its 16 bytes of header and time tag, with
  the size of an element \<open>e\<close>, the element and the rest of the bundle, the dispatcher
  recurses into \<open>e\<close> as a nested bundle exactly when \<open>e\<close> has at least 8 bytes and its first 7
  bytes are \<open>#bundle\<close>; the eighth byte is not looked at.  Every other element is parsed as
  a message, and the callback is called with the element and its view if \<^verbatim>\<open>parse\<close> returns
  \<^verbatim>\<open>true\<close>, and not called otherwise.  The calls for the rest of the bundle follow.
\<close>

theorem bundle_element_dispatch:
  assumes hdr: "length hdr = 16" and pos: "0 < length e" and small: "length e < 2147483648"
  shows "parseBundle (hdr @ be32 (word_of_nat (length e)) @ e @ rest) (20 + length e + length rest) =
     (case (if 8 \<le> length e \<and> take 7 e = ''#bundle'' then parseBundle e (length e)
            else (case parse e (length e) of
                    None \<Rightarrow> None
                  | Some (ok, msg) \<Rightarrow> Some (if ok then [(e, msg)] else []))) of
        None \<Rightarrow> None
      | Some calls \<Rightarrow>
          (case parseBundle (hdr @ rest) (16 + length rest) of
             None \<Rightarrow> None
           | Some calls' \<Rightarrow> Some (calls @ calls')))"
proof -
  have s: "20 + length e + length rest = length hdr + 4 + length e + length rest"
    using hdr by simp
  have el: "element e (length e) =
      (if 8 \<le> length e \<and> take 7 e = ''#bundle'' then parseBundle e (length e)
       else (case parse e (length e) of
               None \<Rightarrow> None
             | Some (ok, msg) \<Rightarrow> Some (if ok then [(e, msg)] else [])))"
  proof -
    have t: "take (length e) e = e" by simp
    show ?thesis unfolding element_def parseBundle_def t by (rule refl)
  qed
  have "parseBundle (hdr @ be32 (word_of_nat (length e)) @ e @ rest) (20 + length e + length rest) =
        parseBundle_loop (hdr @ be32 (word_of_nat (length e)) @ e @ rest)
          (length hdr + 4 + length e + length rest) (length hdr)"
    unfolding parseBundle_def s using hdr by simp
  then show ?thesis
    unfolding parseBundle_loop_element[OF pos small] parseBundle_header[OF hdr] el .
qed

theorem bundle_element_dispatch_witness:
  "parseBundle (''#bundle'' @ [NUL] @ replicate 8 NUL @ [NUL, NUL, NUL, CHR 0x08] @
                ''/a'' @ [NUL, NUL] @ '','' @ [NUL, NUL, NUL]) 28 =
     Some [(''/a'' @ [NUL, NUL] @ '','' @ [NUL, NUL, NUL],
            \<lparr>address = in_buffer 0, typeTags = in_buffer 5, mArgs = []\<rparr>)]"
proof -
  let ?m = "''/a'' @ [NUL, NUL] @ '','' @ [NUL, NUL, NUL]"
  let ?h = "''#bundle'' @ [NUL] @ replicate 8 NUL"
  have h: "length ?h = 16" by simp
  have p: "0 < length ?m" "length ?m < 2147483648" by simp_all
  have e: "parseBundle (?h @ []) (16 + length ([] :: char list)) = Some []"
    using parseBundle_empty[OF h] by simp
  have l: "length ?m = 8" by simp
  have pm: "parse ?m (length ?m) =
      Some (True, \<lparr>address = in_buffer 0, typeTags = in_buffer 5, mArgs = []\<rparr>)"
    unfolding l by (rule parse_no_arguments)
  have nb: "\<not> (8 \<le> length ?m \<and> take 7 ?m = ''#bundle'')" by simp
  have "parseBundle (?h @ be32 (word_of_nat (length ?m)) @ ?m @ []) (20 + length ?m + length ([] :: char list)) =
        Some [(?m, \<lparr>address = in_buffer 0, typeTags = in_buffer 5, mArgs = []\<rparr>)]"
    unfolding bundle_element_dispatch[OF h p, of "[]"] if_not_P[OF nb] pm e by simp
  then show ?thesis unfolding l of_nat_numeral be32_8 by simp
qed

subsection \<open>What a bundle holds\<close>

lemma bundle_holds_length: "bundle_holds b es \<Longrightarrow> length es = mBufferSize b - 16"
  by (auto simp: bundle_holds_def)

lemma bundle_clear_holds: "bundle_holds bundle_clear []"
  by (simp add: bundle_holds_def bundle_clear_def)

lemma setTimetag_holds:
  assumes h: "bundle_holds b es"
  shows "\<exists>b'. setTimetag tt b = Some b' \<and> bundle_holds b' es \<and> mBufferSize b' = mBufferSize b"
proof -
  let ?B = "mBuffer b"
  let ?s = "le_bytes32 (swap_endian32 (seconds tt))"
  let ?f = "le_bytes32 (swap_endian32 (fractions tt))"
  have len: "length ?B = 4096" using h by (simp add: bundle_holds_def)
  have ls: "length ?s = 4" "length ?f = 4" by (simp_all add: le_bytes32_def)
  let ?b1 = "take 8 ?B @ ?s @ drop 12 ?B"
  have m1: "memcpy ?B 8 ?s 4 = Some ?b1" using len ls by (simp add: memcpy_def)
  have l1: "length ?b1 = 4096" using len ls by simp
  let ?b2 = "take 12 ?b1 @ ?f @ drop 16 ?b1"
  have m2: "memcpy ?b1 12 ?f 4 = Some ?b2" using l1 ls by (simp add: memcpy_def)
  have st: "setTimetag tt b = Some (b\<lparr>mBuffer := ?b2\<rparr>)"
    unfolding setTimetag_def m1 option.case m2 by simp
  have l2: "length ?b2 = 4096" using l1 ls by simp
  have d1: "drop 16 ?b1 = drop 16 ?B" using len ls by simp
  have d2: "drop 16 ?b2 = drop 16 ?B"
  proof -
    have "length (take 12 ?b1 @ ?f) = 16" using l1 ls by simp
    then have "drop 16 ?b2 = drop 16 ?b1" by (metis append.assoc append_eq_conv_conj)
    with d1 show ?thesis by simp
  qed
  have "bundle_holds (b\<lparr>mBuffer := ?b2\<rparr>) es"
    using h l2 d2 by (simp add: bundle_holds_def)
  moreover have "mBufferSize (b\<lparr>mBuffer := ?b2\<rparr>) = mBufferSize b" by simp
  ultimately show ?thesis using st by blast
qed

lemma addMessage_holds:
  assumes bm: "built m a args" and small: "length (wire a args) \<le> MAX_MESSAGE_SIZE"
    and h: "bundle_holds b es"
    and room: "mBufferSize b + 4 + length (wire a args) \<le> MAX_BUNDLE_SIZE"
  shows "\<exists>b'. addMessage m b = Some (True, b') \<and> bundle_holds b' (es @ bundle_element (wire a args)) \<and>
              mBufferSize b' = mBufferSize b + 4 + length (wire a args)"
proof -
  define w where "w = wire a args"
  define n where "n = length w"
  define B where "B = mBuffer b"
  define p where "p = mBufferSize b"
  define zs where "zs = le_bytes32 (swap_endian32 (word_of_nat n))"
  have bld: "build m MAX_MESSAGE_SIZE = Some (n, w)"
    unfolding n_def w_def by (rule build_ok[OF bm small])
  from bm have fits: "\<forall>c\<in>set args. blob_fits c" by (simp add: built_def)
  have "0 < up4 (length a + 1)" using up4_ge[of "length a + 1"] by simp
  then have n0: "n \<noteq> 0" unfolding n_def w_def length_wire[OF fits] by simp
  have len: "length B = 4096" and p16: "16 \<le> p"
    and es: "take (p - 16) (drop 16 B) = es"
    using h by (simp_all add: bundle_holds_def B_def p_def)
  have rm: "p + 4 + n \<le> 4096" using room by (simp add: p_def n_def w_def)
  have ls: "length zs = 4" by (simp add: zs_def le_bytes32_def)
  have lw: "length w = n" by (simp add: n_def)
  define b1 where "b1 = take p B @ zs @ drop (p + 4) B"
  have m1: "memcpy B p zs 4 = Some b1" using len ls rm by (simp add: memcpy_def b1_def)
  have l1: "length b1 = 4096" using len ls rm by (simp add: b1_def)
  define b2 where "b2 = take (p + 4) b1 @ w @ drop (p + 4 + n) b1"
  have m2: "memcpy b1 (p + 4) w n = Some b2" using l1 rm lw by (simp add: memcpy_def b2_def)
  have am: "addMessage m b = Some (True, b\<lparr>mBuffer := b2, mBufferSize := p + 4 + n\<rparr>)"
    unfolding addMessage_def bld option.case prod.case
    unfolding B_def[symmetric] p_def[symmetric] zs_def[symmetric] m1 option.case m2
    using n0 rm by simp
  have l2: "length b2 = 4096" using l1 rm lw by (simp add: b2_def)
  have t1: "take (p + 4) b1 = take p B @ zs" using len ls rm by (simp add: b1_def)
  have b2: "b2 = take p B @ zs @ w @ drop (p + 4 + n) b1" unfolding b2_def t1 by simp
  have tp: "take p B = take 16 B @ es"
  proof -
    have "take p B = take 16 (take p B) @ drop 16 (take p B)"
      by (rule append_take_drop_id[symmetric])
    also have "take 16 (take p B) = take 16 B" using p16 by (simp add: min_def)
    also have "drop 16 (take p B) = es" using es by (simp add: drop_take)
    finally show ?thesis .
  qed
  have l16: "length (take 16 B) = 16" using len by simp
  have les: "length es = p - 16" using es len rm by auto
  have "drop 16 b2 = es @ zs @ w @ drop (p + 4 + n) b1"
    unfolding b2 tp using l16 by simp
  then have "take (p + 4 + n - 16) (drop 16 b2) = es @ zs @ w"
    using les ls lw p16 by simp
  then have "bundle_holds (b\<lparr>mBuffer := b2, mBufferSize := p + 4 + n\<rparr>) (es @ bundle_element w)"
    using l2 rm p16 by (simp add: bundle_holds_def bundle_element_def be32_def zs_def n_def)
  moreover have "mBufferSize (b\<lparr>mBuffer := b2, mBufferSize := p + 4 + n\<rparr>) = mBufferSize b + 4 + length w"
    by (simp add: p_def n_def)
  ultimately show ?thesis using am unfolding w_def by blast
qed

lemma delivered_holds:
  assumes h: "bundle_holds b es"
  shows "delivered b = parseBundle_loop es (length es) 0"
  unfolding delivered_def parseBundle_def
proof (rule parseBundle_loop_cong)
  have l: "length es = mBufferSize b - 16" by (rule bundle_holds_length[OF h])
  from h have p: "16 \<le> mBufferSize b" and e: "take (mBufferSize b - 16) (drop 16 (mBuffer b)) = es"
    by (simp_all add: bundle_holds_def)
  show "(16 + 4 \<le> mBufferSize b) = (0 + 4 \<le> length es)" using l p by auto
  show "mBufferSize b - 16 = length es - 0 \<and>
        take (mBufferSize b - 16) (drop 16 (mBuffer b)) = take (length es - 0) (drop 0 es)"
    using l e by simp
qed

subsection \<open>Bundles of messages\<close>

lemma hd_wire: "a \<noteq> [] \<Longrightarrow> hd (wire a args) = hd a"
  by (simp add: wire_def pad0_def)

lemma sendable_assembled:
  assumes s: "sendable a args"
  shows "\<exists>m. assemble a args = Some m \<and> built m a args \<and>
             build m MAX_MESSAGE_SIZE = Some (length (wire a args), wire a args)"
proof -
  from s have len: "length a < MAX_ADDRESS_SIZE" and cnt: "length args \<le> MAX_TYPE_TAG_SIZE - 1"
    and room: "length (concat (map payload args)) \<le> MAX_ARG_BUFFER_SIZE"
    and fits: "\<forall>c\<in>set args. blob_fits c" and small: "length (wire a args) \<le> MAX_MESSAGE_SIZE"
    by (simp_all add: sendable_def)
  from assemble_accepted[OF len cnt room fits] obtain m where asm: "assemble a args = Some m" by blast
  from assemble_built[OF asm] have b: "built m a args" .
  from build_ok[OF b small] asm b show ?thesis by blast
qed

lemma sendable_parsed:
  assumes s: "sendable a args"
  shows "parse (wire a args) (length (wire a args)) =
     Some (True, \<lparr>address = in_buffer 0, typeTags = in_buffer (up4 (length a + 1) + 1),
                  mArgs = slots args (up4 (length a + 1) + up4 (length args + 2))\<rparr>)"
proof -
  from s have a: "a \<noteq> []" "hd a = CHR ''/''" "NUL \<notin> set a"
    and ok: "\<forall>c\<in>set args. c_string_arg c \<and> blob_fits c"
    and cnt: "length args < MAX_ARGS" and small: "length (wire a args) < 2147483648"
    by (simp_all add: sendable_def)
  show ?thesis by (rule parse_wire[OF a ok cnt small])
qed

lemma sendable_element:
  assumes s: "sendable a args"
  shows "element (wire a args) (length (wire a args)) =
     Some [(wire a args,
            \<lparr>address = in_buffer 0, typeTags = in_buffer (up4 (length a + 1) + 1),
              mArgs = slots args (up4 (length a + 1) + up4 (length args + 2))\<rparr>)]"
proof -
  from s have a: "a \<noteq> []" "hd a = CHR ''/''" by (simp_all add: sendable_def)
  have "hd (wire a args) = CHR ''/''" using hd_wire[OF a(1)] a(2) by simp
  moreover have "wire a args \<noteq> []" using a(1) by (simp add: wire_def pad0_def)
  ultimately have nb: "take 7 (wire a args) \<noteq> ''#bundle''"
  proof -
    assume h: "hd (wire a args) = CHR ''/''" and ne: "wire a args \<noteq> []"
    show ?thesis
    proof
      assume "take 7 (wire a args) = ''#bundle''"
      then have "hd (take 7 (wire a args)) = CHR ''#''" by simp
      moreover have "hd (take 7 (wire a args)) = hd (wire a args)" using ne by (simp add: hd_take)
      ultimately show False using h by simp
    qed
  qed
  have t: "take (length (wire a args)) (wire a args) = wire a args" by simp
  have c: "\<not> (8 \<le> length (wire a args) \<and> take 7 (wire a args) = ''#bundle'')" using nb by simp
  show ?thesis unfolding element_def if_not_P[OF c] sendable_parsed[OF s] t by simp
qed

lemma sendable_size:
  assumes s: "sendable a args"
  shows "0 < length (wire a args) \<and> length (wire a args) < 2147483648"
proof -
  from s have l: "length (wire a args) \<le> MAX_MESSAGE_SIZE" and fits: "\<forall>c\<in>set args. blob_fits c"
    by (simp_all add: sendable_def)
  have "0 < up4 (length a + 1)" using up4_ge[of "length a + 1"] by simp
  then have "0 < length (wire a args)" unfolding length_wire[OF fits] by simp
  with l show ?thesis by simp
qed

text \<open>The dispatcher on the elements of a sequence of messages: one call for each, in order.\<close>

lemma parseBundle_loop_messages:
  assumes "\<forall>s\<in>set specs. sendable (fst s) (snd s)"
  shows "parseBundle_loop (concat (map (\<lambda>s. bundle_element (wire (fst s) (snd s))) specs))
           (length (concat (map (\<lambda>s. bundle_element (wire (fst s) (snd s))) specs))) 0 =
         Some (map (\<lambda>s. (wire (fst s) (snd s),
                 \<lparr>address = in_buffer 0, typeTags = in_buffer (up4 (length (fst s) + 1) + 1),
                   mArgs = slots (snd s) (up4 (length (fst s) + 1) + up4 (length (snd s) + 2))\<rparr>))
               specs)"
  using assms
proof (induction specs)
  case Nil
  show ?case by (simp add: parseBundle_loop_end)
next
  case (Cons s specs)
  let ?w = "wire (fst s) (snd s)"
  let ?rest = "concat (map (\<lambda>s. bundle_element (wire (fst s) (snd s))) specs)"
  from Cons.prems have s: "sendable (fst s) (snd s)" and r: "\<forall>s\<in>set specs. sendable (fst s) (snd s)"
    by simp_all
  from sendable_size[OF s] have pos: "0 < length ?w" and small: "length ?w < 2147483648" by simp_all
  have c: "concat (map (\<lambda>s. bundle_element (wire (fst s) (snd s))) (s # specs)) =
           [] @ be32 (word_of_nat (length ?w)) @ ?w @ ?rest"
    by (simp add: bundle_element_def)
  have l: "length ([] @ be32 (word_of_nat (length ?w)) @ ?w @ ?rest) =
           length ([] :: char list) + 4 + length ?w + length ?rest" by simp
  have "parseBundle_loop ([] @ be32 (word_of_nat (length ?w)) @ ?w @ ?rest)
          (length ([] :: char list) + 4 + length ?w + length ?rest) (length ([] :: char list)) =
        Some ([(?w, \<lparr>address = in_buffer 0, typeTags = in_buffer (up4 (length (fst s) + 1) + 1),
                   mArgs = slots (snd s) (up4 (length (fst s) + 1) + up4 (length (snd s) + 2))\<rparr>)] @
              map (\<lambda>s. (wire (fst s) (snd s),
                 \<lparr>address = in_buffer 0, typeTags = in_buffer (up4 (length (fst s) + 1) + 1),
                   mArgs = slots (snd s) (up4 (length (fst s) + 1) + up4 (length (snd s) + 2))\<rparr>))
               specs)"
    unfolding parseBundle_loop_element[OF pos small] sendable_element[OF s] Cons.IH[OF r]
    by simp
  then show ?case unfolding c l by simp
qed

lemma bundle_calls_holds:
  assumes "bundle_holds b es"
    and "\<forall>s\<in>set (added cs). sendable (fst s) (snd s)"
    and "mBufferSize b + sum_list (map (\<lambda>s. 4 + length (wire (fst s) (snd s))) (added cs))
           \<le> MAX_BUNDLE_SIZE"
  shows "\<exists>b'. bundle_calls cs b = Some b' \<and>
           bundle_holds b' (es @ concat (map (\<lambda>s. bundle_element (wire (fst s) (snd s))) (added cs)))"
  using assms
proof (induction cs arbitrary: b es)
  case Nil
  then show ?case by simp
next
  case (Cons c cs)
  show ?case
  proof (cases c)
    case (SetTimetag tt)
    from setTimetag_holds[OF Cons.prems(1), of tt] obtain b1
      where b1: "setTimetag tt b = Some b1" "bundle_holds b1 es" "mBufferSize b1 = mBufferSize b"
      by blast
    have ad: "added (c # cs) = added cs" unfolding SetTimetag by simp
    have "\<exists>b'. bundle_calls cs b1 = Some b' \<and>
           bundle_holds b' (es @ concat (map (\<lambda>s. bundle_element (wire (fst s) (snd s))) (added cs)))"
    proof (rule Cons.IH[OF b1(2)])
      show "\<forall>s\<in>set (added cs). sendable (fst s) (snd s)" using Cons.prems(2) unfolding ad .
      show "mBufferSize b1 + sum_list (map (\<lambda>s. 4 + length (wire (fst s) (snd s))) (added cs))
              \<le> MAX_BUNDLE_SIZE"
        using Cons.prems(3) unfolding ad b1(3) .
    qed
    moreover have "bundle_calls (c # cs) b = bundle_calls cs b1"
      unfolding SetTimetag by (simp add: b1(1))
    ultimately show ?thesis unfolding ad by simp
  next
    case (AddMessage a args)
    have ad: "added (c # cs) = (a, args) # added cs" unfolding AddMessage by simp
    from Cons.prems(2) have s: "sendable a args" unfolding ad by simp
    from sendable_assembled[OF s] obtain m where asm: "assemble a args = Some m"
      and bm: "built m a args" by blast
    from s have small: "length (wire a args) \<le> MAX_MESSAGE_SIZE" by (simp add: sendable_def)
    have sm: "sum_list (map (\<lambda>s. 4 + length (wire (fst s) (snd s))) (added (c # cs))) =
              4 + length (wire a args) + sum_list (map (\<lambda>s. 4 + length (wire (fst s) (snd s))) (added cs))"
      unfolding ad by simp
    have room: "mBufferSize b + 4 + length (wire a args) \<le> MAX_BUNDLE_SIZE"
      using Cons.prems(3) unfolding sm by linarith
    from addMessage_holds[OF bm small Cons.prems(1) room] obtain b1
      where b1: "addMessage m b = Some (True, b1)"
        "bundle_holds b1 (es @ bundle_element (wire a args))"
        "mBufferSize b1 = mBufferSize b + 4 + length (wire a args)" by blast
    have "\<exists>b'. bundle_calls cs b1 = Some b' \<and>
           bundle_holds b' ((es @ bundle_element (wire a args)) @
              concat (map (\<lambda>s. bundle_element (wire (fst s) (snd s))) (added cs)))"
    proof (rule Cons.IH[OF b1(2)])
      show "\<forall>s\<in>set (added cs). sendable (fst s) (snd s)" using Cons.prems(2) unfolding ad by simp
      show "mBufferSize b1 + sum_list (map (\<lambda>s. 4 + length (wire (fst s) (snd s))) (added cs))
              \<le> MAX_BUNDLE_SIZE"
        using Cons.prems(3) unfolding sm b1(3) by linarith
    qed
    moreover have "bundle_calls (c # cs) b = bundle_calls cs b1"
      unfolding AddMessage by (simp add: asm b1(1))
    moreover have "es @ concat (map (\<lambda>s. bundle_element (wire (fst s) (snd s))) (added (c # cs))) =
        (es @ bundle_element (wire a args)) @
              concat (map (\<lambda>s. bundle_element (wire (fst s) (snd s))) (added cs))"
      unfolding ad by simp
    ultimately show ?thesis by simp
  qed
qed

lemma parse_no_slash:
  "parse (''a'' @ [NUL, NUL, NUL] @ '','' @ [NUL, NUL, NUL]) 8 = Some (False, view_clear)"
  by (simp add: parse_def peek_def)

text \<open>
  C5 as stated fails: a message whose address is \<open>a\<close>, without the leading \<open>/\<close>, is built and
  added to the bundle (\<^verbatim>\<open>build\<close> returns 8, \<^verbatim>\<open>addMessage\<close> returns \<^verbatim>\<open>true\<close> and the bundle has
  28 bytes), but the dispatcher does not call back for it: a bundle of one message gives no
  call.
\<close>

theorem bundle_no_slash_counterexample:
  "map_option mBufferSize (bundle_calls [AddMessage ''a'' []] bundle_clear) = Some 28 \<and>
   Option.bind (bundle_calls [AddMessage ''a'' []] bundle_clear) delivered = Some []"
proof -
  let ?w = "wire ''a'' []"
  have w: "?w = ''a'' @ [NUL, NUL, NUL] @ '','' @ [NUL, NUL, NUL]"
    by (simp add: wire_def pad0_def up4_def numeral_2_eq_2)
  have lw: "length ?w = 8" unfolding w by simp
  have "\<exists>m. assemble ''a'' [] = Some m" by (rule assemble_accepted) simp_all
  then obtain m where asm: "assemble ''a'' [] = Some m" by blast
  from assemble_built[OF asm] have bm: "built m ''a'' []" .
  have small: "length ?w \<le> MAX_MESSAGE_SIZE" unfolding lw by simp
  have room: "mBufferSize bundle_clear + 4 + length ?w \<le> MAX_BUNDLE_SIZE"
    unfolding lw by (simp add: bundle_clear_def)
  from addMessage_holds[OF bm small bundle_clear_holds room] obtain b1
    where b1: "addMessage m bundle_clear = Some (True, b1)"
      "bundle_holds b1 ([] @ bundle_element ?w)"
      "mBufferSize b1 = mBufferSize bundle_clear + 4 + length ?w" by blast
  have run: "bundle_calls [AddMessage ''a'' []] bundle_clear = Some b1"
    by (simp add: asm b1(1))
  have sz: "mBufferSize b1 = 28" unfolding b1(3) lw by (simp add: bundle_clear_def)
  have el: "element ?w (length ?w) = Some []"
    unfolding lw unfolding w element_def using parse_no_slash by simp
  have pos: "0 < length ?w" "length ?w < 2147483648" unfolding lw by simp_all
  have e: "[] @ bundle_element ?w = [] @ be32 (word_of_nat (length ?w)) @ ?w @ []"
    by (simp add: bundle_element_def)
  have "delivered b1 = parseBundle_loop ([] @ be32 (word_of_nat (length ?w)) @ ?w @ [])
          (length ([] @ be32 (word_of_nat (length ?w)) @ ?w @ [])) 0"
    using delivered_holds[OF b1(2)] unfolding e .
  also have "length ([] @ be32 (word_of_nat (length ?w)) @ ?w @ []) =
      length ([] :: char list) + 4 + length ?w + length ([] :: char list)" by simp
  also have "parseBundle_loop ([] @ be32 (word_of_nat (length ?w)) @ ?w @ [])
          (length ([] :: char list) + 4 + length ?w + length ([] :: char list)) 0 = Some []"
    using parseBundle_loop_element[OF pos, of "[]" "[]"] el by (simp add: parseBundle_loop_end)
  finally have "delivered b1 = Some []" .
  with run sz show ?thesis by simp
qed

text \<open>
  C5, amended.  A bundle is built on a fresh bundle builder by calls of \<^verbatim>\<open>addMessage\<close>, with
  calls of \<^verbatim>\<open>setTimetag\<close> anywhere between them.  Every message can be sent, which includes
  that its address starts with \<open>/\<close>, and the messages, each with four bytes for its size, fit
  the bundle buffer after the 16 bytes of header and time tag.  Then every message is built,
  every \<^verbatim>\<open>addMessage\<close> returns \<^verbatim>\<open>true\<close>, and the dispatcher, given the bytes of the bundle,
  calls back once for every message, in the order in which the messages were added and no
  more: the call for a message carries the bytes that \<^verbatim>\<open>build\<close> gives for it and the view
  that \<^verbatim>\<open>parse\<close> gives for these bytes, through which the address, the type tags and the
  arguments of the message are read back.
\<close>

theorem bundle_roundtrip:
  assumes msgs: "\<forall>s\<in>set (added cs). sendable (fst s) (snd s)"
    and room: "16 + sum_list (map (\<lambda>s. 4 + length (wire (fst s) (snd s))) (added cs))
                 \<le> MAX_BUNDLE_SIZE"
  shows "\<exists>b calls. bundle_calls cs bundle_clear = Some b \<and> delivered b = Some calls \<and>
           list_all2 (\<lambda>s c.
               (\<exists>m. assemble (fst s) (snd s) = Some m \<and>
                    build m MAX_MESSAGE_SIZE = Some (length (fst c), fst c)) \<and>
               parse (fst c) (length (fst c)) = Some (True, snd c) \<and>
               deref (fst c) (address (snd c)) = Some (fst s) \<and>
               deref (fst c) (typeTags (snd c)) = Some (map tag_of (snd s)) \<and>
               argCount (snd c) = length (snd s) \<and>
               map (received (fst c)) (mArgs (snd c)) = map (Some \<circ> sent) (snd s))
             (added cs) calls"
proof -
  let ?f = "\<lambda>s. (wire (fst s) (snd s),
                 \<lparr>address = in_buffer 0, typeTags = in_buffer (up4 (length (fst s) + 1) + 1),
                   mArgs = slots (snd s) (up4 (length (fst s) + 1) + up4 (length (snd s) + 2))\<rparr>)"
  let ?es = "concat (map (\<lambda>s. bundle_element (wire (fst s) (snd s))) (added cs))"
  let ?P = "\<lambda>s c.
               (\<exists>m. assemble (fst s) (snd s) = Some m \<and>
                    build m MAX_MESSAGE_SIZE = Some (length (fst c), fst c)) \<and>
               parse (fst c) (length (fst c)) = Some (True, snd c) \<and>
               deref (fst c) (address (snd c)) = Some (fst s) \<and>
               deref (fst c) (typeTags (snd c)) = Some (map tag_of (snd s)) \<and>
               argCount (snd c) = length (snd s) \<and>
               map (received (fst c)) (mArgs (snd c)) = map (Some \<circ> sent) (snd s)"
  have r: "mBufferSize bundle_clear +
        sum_list (map (\<lambda>s. 4 + length (wire (fst s) (snd s))) (added cs)) \<le> MAX_BUNDLE_SIZE"
    using room by (simp add: bundle_clear_def)
  from bundle_calls_holds[OF bundle_clear_holds msgs r] obtain b
    where run: "bundle_calls cs bundle_clear = Some b" and h: "bundle_holds b ([] @ ?es)" by blast
  from h have h': "bundle_holds b ?es" by simp
  have d: "delivered b = Some (map ?f (added cs))"
    unfolding delivered_holds[OF h'] by (rule parseBundle_loop_messages[OF msgs])
  have each: "?P s (?f s)" if "s \<in> set (added cs)" for s
  proof -
    from that msgs have s: "sendable (fst s) (snd s)" by simp
    then have a: "NUL \<notin> set (fst s)" and ok: "\<forall>c\<in>set (snd s). c_string_arg c \<and> blob_fits c"
      by (simp_all add: sendable_def)
    from sendable_assembled[OF s]
    have 1: "\<exists>m. assemble (fst s) (snd s) = Some m \<and>
               build m MAX_MESSAGE_SIZE = Some (length (fst (?f s)), fst (?f s))" by auto
    have 2: "parse (fst (?f s)) (length (fst (?f s))) = Some (True, snd (?f s))"
      using sendable_parsed[OF s] by simp
    have 3: "deref (fst (?f s)) (address (snd (?f s))) = Some (fst s)"
      "deref (fst (?f s)) (typeTags (snd (?f s))) = Some (map tag_of (snd s))"
      using deref_wire[OF a, of "snd s"] by simp_all
    have 4: "argCount (snd (?f s)) = length (snd s)" by (simp add: argCount_def length_slots)
    have 5: "map (received (fst (?f s))) (mArgs (snd (?f s))) = map (Some \<circ> sent) (snd s)"
      using received_wire[OF ok, of "fst s"] by simp
    from 1 2 3 4 5 show ?thesis by blast
  qed
  have "list_all2 ?P (added cs) (map ?f (added cs))"
    unfolding list.rel_map(2) using each by (simp add: list_all2_same del: fst_conv snd_conv)
  with run d show ?thesis by blast
qed

theorem bundle_roundtrip_witness:
  "\<exists>b c1 c2.
     bundle_calls [AddMessage ''/a'' [AddInt 5], SetTimetag \<lparr>seconds = 1, fractions = 2\<rparr>,
                   AddMessage ''/b'' [AddString ''hi'']] bundle_clear = Some b \<and>
     delivered b = Some [c1, c2] \<and>
     parse (fst c1) (length (fst c1)) = Some (True, snd c1) \<and>
     deref (fst c1) (address (snd c1)) = Some ''/a'' \<and>
     map (received (fst c1)) (mArgs (snd c1)) = [Some (AddInt 5)] \<and>
     parse (fst c2) (length (fst c2)) = Some (True, snd c2) \<and>
     deref (fst c2) (address (snd c2)) = Some ''/b'' \<and>
     map (received (fst c2)) (mArgs (snd c2)) = [Some (AddString ''hi'')]"
proof -
  let ?cs = "[AddMessage ''/a'' [AddInt 5], SetTimetag \<lparr>seconds = 1, fractions = 2\<rparr>,
              AddMessage ''/b'' [AddString ''hi'']]"
  have ad: "added ?cs = [(''/a'', [AddInt 5]), (''/b'', [AddString ''hi''])]" by simp
  have l1: "length (wire ''/a'' [AddInt 5]) = 12" by (simp add: wire_def pad0_def up4_def)
  have l2: "length (wire ''/b'' [AddString ''hi'']) = 12" by (simp add: wire_def pad0_def up4_def)
  have s1: "sendable ''/a'' [AddInt 5]" unfolding sendable_def l1 by simp
  have s2: "sendable ''/b'' [AddString ''hi'']" unfolding sendable_def l2 by (simp add: up4_def)
  have msgs: "\<forall>s\<in>set (added ?cs). sendable (fst s) (snd s)" unfolding ad using s1 s2 by simp
  have room: "16 + sum_list (map (\<lambda>s. 4 + length (wire (fst s) (snd s))) (added ?cs))
                 \<le> MAX_BUNDLE_SIZE"
    unfolding ad using l1 l2 by simp
  from bundle_roundtrip[OF msgs room] obtain b calls
    where run: "bundle_calls ?cs bundle_clear = Some b" and d: "delivered b = Some calls"
      and all: "list_all2 (\<lambda>s c.
               (\<exists>m. assemble (fst s) (snd s) = Some m \<and>
                    build m MAX_MESSAGE_SIZE = Some (length (fst c), fst c)) \<and>
               parse (fst c) (length (fst c)) = Some (True, snd c) \<and>
               deref (fst c) (address (snd c)) = Some (fst s) \<and>
               deref (fst c) (typeTags (snd c)) = Some (map tag_of (snd s)) \<and>
               argCount (snd c) = length (snd s) \<and>
               map (received (fst c)) (mArgs (snd c)) = map (Some \<circ> sent) (snd s))
             (added ?cs) calls" by blast
  from all[unfolded ad] obtain c1 c2 where c: "calls = [c1, c2]"
    and p1: "parse (fst c1) (length (fst c1)) = Some (True, snd c1)"
      "deref (fst c1) (address (snd c1)) = Some ''/a''"
      "map (received (fst c1)) (mArgs (snd c1)) = [Some (AddInt 5)]"
    and p2: "parse (fst c2) (length (fst c2)) = Some (True, snd c2)"
      "deref (fst c2) (address (snd c2)) = Some ''/b''"
      "map (received (fst c2)) (mArgs (snd c2)) = [Some (AddString ''hi'')]"
    by (auto simp: list_all2_Cons1)
  from run d c p1 p2 show ?thesis
    by (intro exI[of _ b] exI[of _ c1] exI[of _ c2]) simp
qed

end
